theory Spec2Isabelle
  imports Main
begin

section \<open>The nullifier table and its update permission\<close>

text \<open>
  A row of the table \<open>public.nullifier\<close>. The columns are those named in
  \<open>public_nullifier.yaml\<close>; the column \<open>id\<close> is the field \<open>nullifier_id\<close>, since
  \<open>id\<close> is the identity function of HOL. Text and timestamp columns are strings, the
  column \<open>uses\<close> is an integer (GraphQL \<open>Int\<close>; the database's 32-bit bound is not
  modelled, the claims never reach it).
\<close>

record nullifier =
  nullifier_id :: string
  action_id :: string
  nullifier_hash :: string
  credential_type :: string
  created_at :: string
  uses :: int

datatype column =
  Col_id | Col_action_id | Col_nullifier_hash | Col_credential_type | Col_created_at | Col_uses

datatype col_value = VString string | VInt int

fun col_get :: "column \<Rightarrow> nullifier \<Rightarrow> col_value" where
  "col_get Col_id r = VString (nullifier_id r)"
| "col_get Col_action_id r = VString (action_id r)"
| "col_get Col_nullifier_hash r = VString (nullifier_hash r)"
| "col_get Col_credential_type r = VString (credential_type r)"
| "col_get Col_created_at r = VString (created_at r)"
| "col_get Col_uses r = VInt (uses r)"

text \<open>Writing a column; a value of the wrong type is refused (\<open>None\<close>).\<close>

fun col_set :: "column \<Rightarrow> col_value \<Rightarrow> nullifier \<Rightarrow> nullifier option" where
  "col_set Col_id (VString s) r = Some (r\<lparr>nullifier_id := s\<rparr>)"
| "col_set Col_action_id (VString s) r = Some (r\<lparr>action_id := s\<rparr>)"
| "col_set Col_nullifier_hash (VString s) r = Some (r\<lparr>nullifier_hash := s\<rparr>)"
| "col_set Col_credential_type (VString s) r = Some (r\<lparr>credential_type := s\<rparr>)"
| "col_set Col_created_at (VString s) r = Some (r\<lparr>created_at := s\<rparr>)"
| "col_set Col_uses (VInt n) r = Some (r\<lparr>uses := n\<rparr>)"
| "col_set _ _ _ = None"

text \<open>
  \<open>update_permissions\<close> of \<open>public_nullifier.yaml\<close>: one entry, for the role
  \<open>service\<close>, with the column list \<open>[uses]\<close>, the filter \<open>{}\<close> (every row) and no check.
\<close>

record update_permission =
  role :: string
  columns :: "column list"

definition update_permissions :: "update_permission list" where
  "update_permissions = [\<lparr>role = ''service'', columns = [Col_uses]\<rparr>]"

text \<open>
  An update mutation as the GraphQL engine receives it: a \<open>where\<close> clause (a conjunction
  of column equalities \<open>_eq\<close>), the \<open>_set\<close> assignments and the \<open>_inc\<close> increments.
\<close>

record update_mutation =
  where_eq :: "(column \<times> col_value) list"
  set_cols :: "(column \<times> col_value) list"
  inc_cols :: "(column \<times> int) list"

datatype mutation_error = permission_denied | validation_failed | constraint_violation

definition row_matches :: "(column \<times> col_value) list \<Rightarrow> nullifier \<Rightarrow> bool" where
  "row_matches w r = list_all (\<lambda>(c, v). col_get c r = v) w"

fun apply_set :: "(column \<times> col_value) list \<Rightarrow> nullifier \<Rightarrow> nullifier option" where
  "apply_set [] r = Some r"
| "apply_set ((c, v) # cs) r =
     (case col_set c v r of None \<Rightarrow> None | Some r' \<Rightarrow> apply_set cs r')"

fun apply_inc :: "(column \<times> int) list \<Rightarrow> nullifier \<Rightarrow> nullifier option" where
  "apply_inc [] r = Some r"
| "apply_inc ((c, k) # cs) r =
     (case col_get c r of
        VInt n \<Rightarrow> (case col_set c (VInt (n + k)) r of None \<Rightarrow> None | Some r' \<Rightarrow> apply_inc cs r')
      | VString _ \<Rightarrow> None)"

definition update_row :: "update_mutation \<Rightarrow> nullifier \<Rightarrow> nullifier option" where
  "update_row m r =
     (if row_matches (where_eq m) r
      then (case apply_set (set_cols m) r of None \<Rightarrow> None | Some r' \<Rightarrow> apply_inc (inc_cols m) r')
      else Some r)"

fun update_rows :: "update_mutation \<Rightarrow> nullifier list \<Rightarrow> nullifier list option" where
  "update_rows m [] = Some []"
| "update_rows m (r # rs) =
     (case update_row m r of
        None \<Rightarrow> None
      | Some r' \<Rightarrow> (case update_rows m rs of None \<Rightarrow> None | Some rs' \<Rightarrow> Some (r' # rs')))"

text \<open>
  What the GraphQL engine (Hasura) does with an update of \<open>nullifier\<close> sent under a
  role: the role needs an entry in \<open>update_permissions\<close>, and every column the
  mutation writes (by \<open>_set\<close> or \<open>_inc\<close>) must be in that entry's column list;
  otherwise the mutation is refused and nothing is written. The result is
  \<open>affected_rows\<close> and the new table.
\<close>

definition update_nullifier ::
  "string \<Rightarrow> update_mutation \<Rightarrow> nullifier list \<Rightarrow> mutation_error + (nat \<times> nullifier list)" where
  "update_nullifier rl m rows =
     (case find (\<lambda>p. role p = rl) update_permissions of
        None \<Rightarrow> Inl permission_denied
      | Some p \<Rightarrow>
          if list_all (\<lambda>c. c \<in> set (columns p)) (map fst (set_cols m) @ map fst (inc_cols m))
          then (case update_rows m rows of
                  None \<Rightarrow> Inl validation_failed
                | Some rows' \<Rightarrow> Inr (length (filter (row_matches (where_eq m)) rows), rows'))
          else Inl permission_denied)"

text \<open>Two rows that differ in \<open>uses\<close> at most.\<close>

definition same_identity :: "nullifier \<Rightarrow> nullifier \<Rightarrow> bool" where
  "same_identity r r' \<longleftrightarrow>
     nullifier_id r' = nullifier_id r \<and> action_id r' = action_id r
     \<and> nullifier_hash r' = nullifier_hash r \<and> credential_type r' = credential_type r
     \<and> created_at r' = created_at r"

section \<open>Requests, the schema and the responses\<close>

text \<open>
  A JSON value of the request body. Numbers are integers here: the only place a number
  is read is the coercion of \<open>credential_type\<close> to a string.
\<close>

datatype json = JNull | JBool bool | JNum int | JStr string | JArr "json list" | JObj "(string \<times> json) list"

text \<open>
  A query parameter of Next.js is a string or an array of strings. \<open>truthy_query\<close> is
  JavaScript's truthiness (\<open>!req.query.app_id\<close>): only the absent parameter and the
  empty string are falsy.
\<close>

datatype query_value = QString string | QArray "string list"

fun truthy_query :: "query_value option \<Rightarrow> bool" where
  "truthy_query None = False"
| "truthy_query (Some (QString s)) = (s \<noteq> [])"
| "truthy_query (Some (QArray xs)) = True"

fun join_comma :: "string list \<Rightarrow> string" where
  "join_comma [] = []"
| "join_comma [x] = x"
| "join_comma (x # y # ys) = x @ '','' @ join_comma (y # ys)"

fun query_toString :: "query_value \<Rightarrow> string" where
  "query_toString (QString s) = s"
| "query_toString (QArray xs) = join_comma xs"

record request =
  req_method :: "string option"
  body :: "string \<rightharpoonup> json"
  query_app_id :: "query_value option"

text \<open>Decimal rendering of an integer, as a template literal renders \<open>max_verifications\<close>.\<close>

definition digit_char :: "nat \<Rightarrow> char" where
  "digit_char d = ''0123456789'' ! d"

fun show_nat :: "nat \<Rightarrow> string" where
  "show_nat n = (if n < 10 then [digit_char n] else show_nat (n div 10) @ [digit_char (n mod 10)])"

declare show_nat.simps [simp del]

definition show_int :: "int \<Rightarrow> string" where
  "show_int i = (if i < 0 then CHR ''-'' # show_nat (nat (- i)) else show_nat (nat i))"

text \<open>The parsed parameters: the six attributes of \<open>schema\<close>.\<close>

record params =
  p_action :: string
  p_signal :: string
  p_proof :: string
  p_nullifier_hash :: string
  p_merkle_root :: string
  p_credential_type :: string

text \<open>
  The field schemas. \<open>strict()\<close> accepts a string only, without coercion;
  \<open>nonNullable().defined()\<close> refuses the absent attribute and \<open>null\<close> but accepts the
  empty string; \<open>default("")\<close> replaces the absent attribute; \<open>required()\<close> of a string
  schema refuses the absent attribute, \<open>null\<close> and the empty string. The schema of
  \<open>credential_type\<close> is not strict: a number or a boolean is first cast to its string,
  an array or an object is left as it is and then fails the type check.
\<close>

fun string_strict_defined :: "json option \<Rightarrow> string option" where
  "string_strict_defined (Some (JStr s)) = Some s"
| "string_strict_defined _ = None"

fun string_strict_default :: "string \<Rightarrow> json option \<Rightarrow> string option" where
  "string_strict_default d None = Some d"
| "string_strict_default d (Some (JStr s)) = Some s"
| "string_strict_default d _ = None"

fun string_strict_required :: "json option \<Rightarrow> string option" where
  "string_strict_required (Some (JStr s)) = (if s = [] then None else Some s)"
| "string_strict_required _ = None"

fun string_cast :: "json \<Rightarrow> json" where
  "string_cast (JNum n) = JStr (show_int n)"
| "string_cast (JBool b) = JStr (if b then ''true'' else ''false'')"
| "string_cast v = v"

fun string_required_oneOf :: "string list \<Rightarrow> json option \<Rightarrow> string option" where
  "string_required_oneOf allowed None = None"
| "string_required_oneOf allowed (Some v) =
     (case string_cast v of
        JStr s \<Rightarrow> if s \<noteq> [] \<and> s \<in> set allowed then Some s else None
      | _ \<Rightarrow> None)"

text \<open>
  \<open>schema\<close> (lines 16 to 30). Its first argument is \<open>Object.values(CredentialType)\<close>;
  the enumeration \<open>CredentialType\<close> of \<open>src/lib/types\<close> is a parameter. The result is
  the parsed parameters, or \<open>None\<close> when an attribute fails its schema.
\<close>

definition schema :: "string list \<Rightarrow> (string \<rightharpoonup> json) \<Rightarrow> params option" where
  "schema allowed b =
     Option.bind (string_strict_defined (b ''action'')) (\<lambda>a.
     Option.bind (string_strict_default [] (b ''signal'')) (\<lambda>s.
     Option.bind (string_strict_required (b ''proof'')) (\<lambda>p.
     Option.bind (string_strict_required (b ''nullifier_hash'')) (\<lambda>h.
     Option.bind (string_strict_required (b ''merkle_root'')) (\<lambda>m.
     Option.bind (string_required_oneOf allowed (b ''credential_type'')) (\<lambda>c.
       Some \<lparr>p_action = a, p_signal = s, p_proof = p, p_nullifier_hash = h,
             p_merkle_root = m, p_credential_type = c\<rparr>))))))"

text \<open>
  Modelled from the spec: \<open>validateRequestSchema\<close> of \<open>src/backend/utils\<close> is not
  among the sources. It runs the schema on the value: \<open>isValid\<close> is whether the schema
  accepted it, \<open>parsedParams\<close> the parsed parameters.
\<close>

definition validateRequestSchema :: "string list \<Rightarrow> (string \<rightharpoonup> json) \<Rightarrow> params option" where
  "validateRequestSchema allowed v = schema allowed v"

text \<open>
  The error object that \<open>fetchActionForProof\<close> and \<open>verifyProof\<close> may return; each
  field is read with \<open>?.\<close> and \<open>||\<close>, so each may be absent.
\<close>

record api_error =
  statusCode :: "int option"
  code :: "string option"
  message :: "string option"
  attribute :: "string option"

record action_info =
  action_pk :: string
  action_name :: "string option"
  status :: string
  max_verifications :: int
  external_nullifier :: "string option"

record app_info =
  is_staging :: bool
  app_action :: action_info
  app_nullifier :: "nullifier option"

record fetch_result =
  fetch_error :: "api_error option"
  fetch_app :: "app_info option"

record verify_result =
  verify_error :: "api_error option"
  verify_success :: bool

text \<open>The body of a 200 response.\<close>

record success_body =
  success :: bool
  body_uses :: int
  body_action :: "string option"
  body_created_at :: string
  max_uses :: int
  body_nullifier_hash :: string

text \<open>
  What the handler answers. The helpers of \<open>src/backend/errors\<close> are not among the
  sources, so each call is kept as a constructor with the call's arguments:
  \<open>errorNotAllowed(req.method, ...)\<close>, \<open>handleError(req, res)\<close> of the schema validation,
  \<open>errorRequiredAttribute(attribute, ...)\<close>,
  \<open>errorResponse(res, statusCode, code, message, attribute, req)\<close> and
  \<open>errorValidation(code, message, attribute, ...)\<close>. \<open>json200\<close> is
  \<open>res.status(200).json(...)\<close>, \<open>thrown\<close> an exception that leaves the handler.
\<close>

datatype response =
  errorNotAllowed "string option"
| handleError
| errorRequiredAttribute string
| errorResponse int string string "string option"
| errorValidation string string "string option"
| json200 success_body
| thrown mutation_error

text \<open>JavaScript's \<open>x || d\<close> on an optional number and on an optional string.\<close>

fun or_int :: "int option \<Rightarrow> int \<Rightarrow> int" where
  "or_int None d = d"
| "or_int (Some n) d = (if n = 0 then d else n)"

fun or_string :: "string option \<Rightarrow> string \<Rightarrow> string" where
  "or_string None d = d"
| "or_string (Some s) d = (if s = [] then d else s)"

fun or_null :: "string option \<Rightarrow> string option" where
  "or_null None = None"
| "or_null (Some s) = (if s = [] then None else Some s)"

text \<open>
  The error response built at lines 63 to 70 and again at lines 122 to 129 from an
  optional error object.
\<close>

definition error_or_default :: "api_error option \<Rightarrow> response" where
  "error_or_default e =
     errorResponse
       (or_int (Option.bind e statusCode) 400)
       (or_string (Option.bind e code) ''unknown_error'')
       (or_string (Option.bind e message) ''There was an error verifying this proof.'')
       (or_null (Option.bind e attribute))"

section \<open>The handler\<close>

text \<open>
  What the handler is given from outside the nullifier table: the values of the
  enumeration \<open>CredentialType\<close>; the apps and actions of the database, which the handler
  only reads (\<open>lookup_app app_id action\<close> gives an optional error and, when the app is
  found, \<open>is_staging\<close> and the action); the external verifier \<open>verifyProof\<close>, applied to
  (signal, proof, merkle_root, nullifier_hash, external_nullifier) and
  (is_staging, credential_type); and the values the database generates for the columns
  \<open>id\<close> and \<open>created_at\<close> of an inserted row.
\<close>

record env =
  CredentialType :: "string list"
  lookup_app :: "string \<Rightarrow> string \<Rightarrow> api_error option \<times> (bool \<times> action_info) option"
  verifyProof :: "string \<times> string \<times> string \<times> string \<times> string \<Rightarrow> bool \<times> string \<Rightarrow> verify_result"
  generated_id :: string
  now :: string

text \<open>
  Modelled from the spec: \<open>canVerifyForAction\<close> of \<open>src/backend/utils\<close> is not among
  the sources. It returns false when the existing nullifier already reached the
  configured limit; a person with no nullifier has not verified before.
\<close>

definition canVerifyForAction :: "nullifier option \<Rightarrow> int \<Rightarrow> bool" where
  "canVerifyForAction n max_verifications_per_person =
     (case n of None \<Rightarrow> True | Some r \<Rightarrow> uses r < max_verifications_per_person)"

text \<open>
  Modelled from the spec: \<open>fetchActionForProof\<close> of \<open>src/backend/verify\<close> is not among
  the sources. It fetches the app and the action, and with them the nullifier of that
  action (the table's relationship \<open>action\<close> over \<open>action_id\<close>) whose hash is the
  request's \<open>nullifier_hash\<close>, if there is one.
\<close>

definition fetchActionForProof ::
  "env \<Rightarrow> nullifier list \<Rightarrow> string \<Rightarrow> string \<Rightarrow> string \<Rightarrow> fetch_result" where
  "fetchActionForProof e rows app_id hash act =
     (case lookup_app e app_id act of
        (err, found) \<Rightarrow>
          \<lparr>fetch_error = err,
           fetch_app = map_option (\<lambda>(staging, a).
             \<lparr>is_staging = staging, app_action = a,
              app_nullifier = find (\<lambda>r. action_id r = action_pk a \<and> nullifier_hash r = hash) rows\<rparr>)
             found\<rparr>)"

text \<open>
  \<open>updateNullifierQuery\<close> (lines 231 to 240), sent by the service client: the rows
  where \<open>uses\<close> equals \<open>$uses\<close> and \<open>nullifier_hash\<close> equals \<open>$nullifier_hash\<close> have
  \<open>uses\<close> incremented by 1.
\<close>

definition updateNullifierQuery ::
  "string \<Rightarrow> int \<Rightarrow> nullifier list \<Rightarrow> mutation_error + (nat \<times> nullifier list)" where
  "updateNullifierQuery hash u rows =
     update_nullifier ''service''
       \<lparr>where_eq = [(Col_uses, VInt u), (Col_nullifier_hash, VString hash)],
        set_cols = [],
        inc_cols = [(Col_uses, 1)]\<rparr> rows"

text \<open>
  Modelled from the spec: the definition of the table is not among the sources. The
  column \<open>uses\<close> of a row just inserted is 1, the number the handler reports after an
  insert.
\<close>

definition default_uses :: int where
  "default_uses = 1"

text \<open>
  Modelled from the spec: the constraints of the table are not among the sources. A
  uniqueness constraint on \<open>nullifier_hash\<close> rejects a row whose hash the table
  already has.
\<close>

definition violates_unique_hash :: "string \<Rightarrow> nullifier list \<Rightarrow> bool" where
  "violates_unique_hash hash rows = list_ex (\<lambda>r. nullifier_hash r = hash) rows"

text \<open>
  \<open>insertNullifierQuery\<close> (lines 211 to 229): one row with the given \<open>action_id\<close>,
  \<open>nullifier_hash\<close> and \<open>credential_type\<close>; the database fills in \<open>id\<close>,
  \<open>created_at\<close> and \<open>uses\<close>. The result is the inserted row and the new table.
\<close>

definition insertNullifierQuery ::
  "env \<Rightarrow> string \<Rightarrow> string \<Rightarrow> string \<Rightarrow> nullifier list \<Rightarrow> mutation_error + (nullifier \<times> nullifier list)" where
  "insertNullifierQuery e aid hash cred rows =
     (if violates_unique_hash hash rows then Inl constraint_violation
      else (let row = \<lparr>nullifier_id = generated_id e, action_id = aid, nullifier_hash = hash,
                       credential_type = cred, created_at = now e, uses = default_uses\<rparr>
            in Inr (row, rows @ [row])))"

text \<open>
  What a request holds once the proof is verified (line 131): the parsed parameters, the
  action and the nullifier it fetched.
\<close>

record snapshot =
  seen_params :: params
  seen_action :: action_info
  seen_nullifier :: "nullifier option"

text \<open>
  \<open>handleVerify\<close>, lines 37 to 105: the checks before the verifier is called. The table
  is read once, by \<open>fetchActionForProof\<close>. The result is the response when the handler
  returns here, or the parsed parameters, the fetched app and the action's external
  nullifier with which it goes on.
\<close>

definition handleVerify_checks ::
  "env \<Rightarrow> nullifier list \<Rightarrow> request \<Rightarrow> response + (params \<times> app_info \<times> string)" where
  "handleVerify_checks e rows req =
     (if (case req_method req of None \<Rightarrow> True | Some m \<Rightarrow> m = [] \<or> m \<notin> set [''POST''])
      then Inl (errorNotAllowed (req_method req))
      else (case validateRequestSchema (CredentialType e) (body req) of
        None \<Rightarrow> Inl handleError
      | Some parsedParams \<Rightarrow>
          (case query_app_id req of
             None \<Rightarrow> Inl (errorRequiredAttribute ''app_id'')
           | Some q \<Rightarrow>
               if \<not> truthy_query (Some q) then Inl (errorRequiredAttribute ''app_id'')
               else (let data = fetchActionForProof e rows (query_toString q)
                                  (p_nullifier_hash parsedParams) (p_action parsedParams)
                 in (case fetch_app data of
                       None \<Rightarrow> Inl (error_or_default (fetch_error data))
                     | Some app \<Rightarrow>
                         if fetch_error data \<noteq> None then Inl (error_or_default (fetch_error data))
                         else (let action = app_action app; nullifier = app_nullifier app in
                           if status action = ''inactive''
                           then Inl (errorResponse 400 ''action_inactive'' ''This action is inactive.''
                                       (Some ''status''))
                           else if \<not> canVerifyForAction nullifier (max_verifications action)
                           then Inl (errorValidation ''already_verified''
                                  (if max_verifications action = 1
                                   then ''This person has already verified for this action.''
                                   else ''This person has already verified for this action the maximum number of times (''
                                        @ show_int (max_verifications action) @ '').'')
                                  None)
                           else (case or_null (external_nullifier action) of
                             None \<Rightarrow> Inl (errorResponse 400 ''verification_error''
                                       ''This action does not have a valid external nullifier set.'' None)
                           | Some ext \<Rightarrow> Inr (parsedParams, app, ext))))))))"

text \<open>
  \<open>handleVerify\<close>, lines 107 to 130: the call of the external verifier and the response
  when it reports an error or no success.
\<close>

definition handleVerify_proof :: "env \<Rightarrow> params \<times> app_info \<times> string \<Rightarrow> response + snapshot" where
  "handleVerify_proof e c =
     (case c of (parsedParams, app, ext) \<Rightarrow>
        (let r = verifyProof e
                   (p_signal parsedParams, p_proof parsedParams, p_merkle_root parsedParams,
                    p_nullifier_hash parsedParams, ext)
                   (is_staging app, p_credential_type parsedParams)
         in if verify_error r \<noteq> None \<or> \<not> verify_success r
            then Inl (error_or_default (verify_error r))
            else Inr \<lparr>seen_params = parsedParams, seen_action = app_action app,
                      seen_nullifier = app_nullifier app\<rparr>))"

text \<open>
  \<open>handleVerify\<close>, lines 132 to 208: the mutation and the answer after it. The table may
  have changed since the nullifier was fetched. A mutation the engine refuses makes
  \<open>client.mutate\<close> throw; only the insert's constraint violation is caught.
\<close>

definition handleVerify_write :: "env \<Rightarrow> snapshot \<Rightarrow> nullifier list \<Rightarrow> response \<times> nullifier list" where
  "handleVerify_write e s rows =
     (let parsedParams = seen_params s; action = seen_action s in
      case seen_nullifier s of
        Some nullifier \<Rightarrow>
          (case updateNullifierQuery (nullifier_hash nullifier) (uses nullifier) rows of
             Inl err \<Rightarrow> (thrown err, rows)
           | Inr (affected_rows, rows') \<Rightarrow>
               if affected_rows = 0
               then (errorValidation ''already_verified''
                       ''This person has already verified for this action.'' None, rows')
               else (json200 \<lparr>success = True, body_uses = uses nullifier + 1,
                               body_action = action_name action,
                               body_created_at = created_at nullifier,
                               max_uses = max_verifications action,
                               body_nullifier_hash = nullifier_hash nullifier\<rparr>, rows'))
      | None \<Rightarrow>
          (case insertNullifierQuery e (action_pk action) (p_nullifier_hash parsedParams)
                  (p_credential_type parsedParams) rows of
             Inl err \<Rightarrow>
               if err = constraint_violation
               then (errorValidation ''already_verified''
                       ''This person has already verified for this action.'' None, rows)
               else (thrown err, rows)
           | Inr (inserted, rows') \<Rightarrow>
               if nullifier_hash inserted \<noteq> p_nullifier_hash parsedParams
               then (errorResponse 400 ''verification_error''
                       ''There was an error inserting the nullifier. Please try again.'' None, rows')
               else (json200 \<lparr>success = True, body_uses = 1,
                               body_action = action_name action,
                               body_created_at = created_at inserted,
                               max_uses = max_verifications action,
                               body_nullifier_hash = nullifier_hash inserted\<rparr>, rows')))"

text \<open>
  The part of the handler before its mutation: the checks, then the verifier.
\<close>

definition handleVerify_read :: "env \<Rightarrow> nullifier list \<Rightarrow> request \<Rightarrow> response + snapshot" where
  "handleVerify_read e rows req =
     (case handleVerify_checks e rows req of
        Inl resp \<Rightarrow> Inl resp
      | Inr c \<Rightarrow> handleVerify_proof e c)"

text \<open>
  The whole handler, when the table is \<open>rows\<close> at the time of the fetch and \<open>rows'\<close> at
  the time of the mutation (other requests may have written in between): the response
  and the table after it.
\<close>

definition handleVerify_at ::
  "env \<Rightarrow> nullifier list \<Rightarrow> nullifier list \<Rightarrow> request \<Rightarrow> response \<times> nullifier list" where
  "handleVerify_at e rows rows' req =
     (case handleVerify_read e rows req of
        Inl resp \<Rightarrow> (resp, rows')
      | Inr s \<Rightarrow> handleVerify_write e s rows')"

text \<open>A request handled with no other request in between.\<close>

definition handleVerify :: "env \<Rightarrow> nullifier list \<Rightarrow> request \<Rightarrow> response \<times> nullifier list" where
  "handleVerify e rows req = handleVerify_at e rows rows req"

text \<open>
  The table still holds what a request fetched: a row with the hash and the uses of the
  fetched nullifier or, when the request fetched none, no row with the request's hash.
\<close>

definition still_as_fetched :: "nullifier option \<Rightarrow> string \<Rightarrow> nullifier list \<Rightarrow> bool" where
  "still_as_fetched fetched hash rows =
     (case fetched of
        Some n \<Rightarrow> list_ex (\<lambda>r. uses r = uses n \<and> nullifier_hash r = nullifier_hash n) rows
      | None \<Rightarrow> \<not> list_ex (\<lambda>r. nullifier_hash r = hash) rows)"

text \<open>
  The action a request asks for: what \<open>lookup_app\<close> gives for the request's own
  \<open>app_id\<close> and \<open>action\<close>.
\<close>

definition requested_action :: "env \<Rightarrow> request \<Rightarrow> action_info option" where
  "requested_action e req =
     (case query_app_id req of
        None \<Rightarrow> None
      | Some q \<Rightarrow>
          (case body req ''action'' of
             Some (JStr act) \<Rightarrow> map_option snd (snd (lookup_app e (query_toString q) act))
           | _ \<Rightarrow> None))"

section \<open>Sequences of requests and interleavings\<close>

text \<open>
  The limit of an action on the table: every nullifier of the action \<open>aid\<close> has at most
  \<open>m\<close> uses.
\<close>

definition within_limit :: "int \<Rightarrow> string \<Rightarrow> nullifier list \<Rightarrow> bool" where
  "within_limit m aid rows = list_all (\<lambda>r. action_id r = aid \<longrightarrow> uses r \<le> m) rows"

text \<open>Requests handled one after the other, each with its own environment.\<close>

fun handleVerify_all :: "(env \<times> request) list \<Rightarrow> nullifier list \<Rightarrow> nullifier list" where
  "handleVerify_all [] rows = rows"
| "handleVerify_all ((e, req) # rest) rows = handleVerify_all rest (snd (handleVerify e rows req))"

text \<open>
  Concurrent requests. The handler awaits the fetch, the verifier and the mutation; the
  table is read at the fetch and written at the mutation, and each of the two is one
  atomic operation of the database. A request has not started (\<open>Idle\<close>), or it has
  fetched and verified and is about to send its mutation (\<open>Waiting\<close>, with its
  snapshot), or it has answered (\<open>Done\<close>, with the snapshot if it sent a mutation).
\<close>

datatype progress = Idle | Waiting snapshot | Done "snapshot option" response

text \<open>
  One step of the request number \<open>i\<close>: its fetch and checks if it has not started, its
  mutation if it is waiting, nothing if it has answered.
\<close>

definition step ::
  "(env \<times> request) list \<Rightarrow> nat \<Rightarrow> nullifier list \<times> progress list \<Rightarrow> nullifier list \<times> progress list" where
  "step reqs i c =
     (case c of (rows, st) \<Rightarrow>
        if i < length reqs \<and> i < length st
        then (case reqs ! i of (e, req) \<Rightarrow>
                (case st ! i of
                   Idle \<Rightarrow>
                     (case handleVerify_read e rows req of
                        Inl resp \<Rightarrow> (rows, st[i := Done None resp])
                      | Inr s \<Rightarrow> (rows, st[i := Waiting s]))
                 | Waiting s \<Rightarrow>
                     (case handleVerify_write e s rows of
                        (resp, rows') \<Rightarrow> (rows', st[i := Done (Some s) resp]))
                 | Done s resp \<Rightarrow> (rows, st)))
        else (rows, st))"

text \<open>
  A schedule is the list of the request numbers in the order in which they take their
  steps; every interleaving of the requests is a schedule.
\<close>

definition run_schedule ::
  "(env \<times> request) list \<Rightarrow> nat list \<Rightarrow> nullifier list \<Rightarrow> nullifier list \<times> progress list" where
  "run_schedule reqs sched rows = fold (step reqs) sched (rows, replicate (length reqs) Idle)"

text \<open>
  What an attempt observed: the hash of its request and the uses of the nullifier it
  fetched (\<open>None\<close> when there was no nullifier yet).
\<close>

definition observed :: "snapshot \<Rightarrow> string \<times> int option" where
  "observed s = (p_nullifier_hash (seen_params s), map_option uses (seen_nullifier s))"

text \<open>The observation of an attempt that answered with a success response.\<close>

fun succeeded :: "progress \<Rightarrow> (string \<times> int option) option" where
  "succeeded (Done (Some s) (json200 b)) = Some (observed s)"
| "succeeded _ = None"

text \<open>The number of successful verifications of the nullifier with hash \<open>h\<close>.\<close>

definition successes :: "string \<Rightarrow> progress list \<Rightarrow> nat" where
  "successes h st = length (filter (\<lambda>p. map_option fst (succeeded p) = Some h) st)"

text \<open>The stored uses of the nullifier with hash \<open>h\<close>, if the table has it.\<close>

definition stored_uses :: "string \<Rightarrow> nullifier list \<Rightarrow> int option" where
  "stored_uses h rows = map_option uses (find (\<lambda>r. nullifier_hash r = h) rows)"

text \<open>
  The uses of the nullifier with hash \<open>h\<close> counted as verifications: none when the
  table does not have it.
\<close>

definition counted :: "string \<Rightarrow> nullifier list \<Rightarrow> int" where
  "counted h rows = (case stored_uses h rows of None \<Rightarrow> 0 | Some u \<Rightarrow> u)"

text \<open>
  No two different attempts succeeded with the same observation, that is, with the same
  hash and the same uses read (or both with no nullifier read).
\<close>

definition exclusive :: "progress list \<Rightarrow> bool" where
  "exclusive st \<longleftrightarrow>
     list_all (\<lambda>i. list_all (\<lambda>j.
        i \<noteq> j \<longrightarrow> succeeded (st ! i) \<noteq> None \<longrightarrow> succeeded (st ! i) \<noteq> succeeded (st ! j))
        [0..<length st]) [0..<length st]"

subsection \<open>Invariants of the interleaved runs\<close>

text \<open>
  The table has moved past an observation: it has the nullifier, with more uses than
  were observed.
\<close>

definition passed :: "nullifier list \<Rightarrow> string \<times> int option \<Rightarrow> bool" where
  "passed rows k =
     (case stored_uses (fst k) rows of
        None \<Rightarrow> False
      | Some v \<Rightarrow> (case snd k of None \<Rightarrow> True | Some u \<Rightarrow> u < v))"

text \<open>The uses a nullifier has after a successful attempt that observed \<open>obs\<close>.\<close>

definition next_uses :: "int option \<Rightarrow> int" where
  "next_uses obs = (case obs of None \<Rightarrow> 1 | Some u \<Rightarrow> u + 1)"

text \<open>A waiting request holds a nullifier with the hash of its request.\<close>

definition waiting_ok :: "progress \<Rightarrow> bool" where
  "waiting_ok p =
     (case p of
        Waiting s \<Rightarrow>
          (case seen_nullifier s of
             None \<Rightarrow> True
           | Some n \<Rightarrow> nullifier_hash n = p_nullifier_hash (seen_params s))
      | _ \<Rightarrow> True)"

text \<open>A waiting request for the hash \<open>h\<close> read fewer than \<open>m\<close> uses.\<close>

definition below_limit :: "string \<Rightarrow> int \<Rightarrow> progress \<Rightarrow> bool" where
  "below_limit h m p =
     (case p of
        Waiting s \<Rightarrow>
          p_nullifier_hash (seen_params s) = h \<longrightarrow>
            (case seen_nullifier s of None \<Rightarrow> True | Some n \<Rightarrow> uses n < m)
      | _ \<Rightarrow> True)"

definition inv_exclusive :: "nullifier list \<times> progress list \<Rightarrow> bool" where
  "inv_exclusive c \<longleftrightarrow>
     distinct (map nullifier_hash (fst c))
     \<and> (\<forall>p\<in>set (snd c). waiting_ok p)
     \<and> (\<forall>p\<in>set (snd c). case succeeded p of None \<Rightarrow> True | Some k \<Rightarrow> passed (fst c) k)
     \<and> exclusive (snd c)"

definition inv_counted :: "string \<Rightarrow> int \<Rightarrow> int \<Rightarrow> nullifier list \<times> progress list \<Rightarrow> bool" where
  "inv_counted h m start c \<longleftrightarrow>
     (\<forall>p\<in>set (snd c). below_limit h m p)
     \<and> int (successes h (snd c)) + start = counted h (fst c)
     \<and> counted h (fst c) \<le> m"

section \<open>A concrete app, action and request\<close>

definition example_action :: "int \<Rightarrow> action_info" where
  "example_action m =
     \<lparr>action_pk = ''action_1'', action_name = Some ''vote'', status = ''active'',
      max_verifications = m, external_nullifier = Some ''0x2a''\<rparr>"

definition example_env :: "int \<Rightarrow> env" where
  "example_env m =
     \<lparr>CredentialType = [''orb'', ''phone''],
      lookup_app = (\<lambda>app_id act.
         if app_id = ''app_1'' \<and> act = ''vote'' then (None, Some (False, example_action m))
         else (Some \<lparr>statusCode = Some 404, code = Some ''not_found'',
                      message = Some ''App not found.'', attribute = None\<rparr>, None)),
      verifyProof = (\<lambda>p opts. \<lparr>verify_error = None, verify_success = True\<rparr>),
      generated_id = ''nil_1'',
      now = ''2023-06-01T00:00:00''\<rparr>"

text \<open>The same app with a second action, of another limit.\<close>

definition example_other_action :: action_info where
  "example_other_action =
     \<lparr>action_pk = ''action_2'', action_name = Some ''poll'', status = ''active'',
      max_verifications = 5, external_nullifier = Some ''0x2b''\<rparr>"

definition example_env_two :: env where
  "example_env_two =
     (example_env 2)\<lparr>lookup_app := (\<lambda>app_id act.
        if app_id = ''app_1'' \<and> act = ''poll'' then (None, Some (False, example_other_action))
        else lookup_app (example_env 2) app_id act)\<rparr>"

definition example_body :: "string \<rightharpoonup> json" where
  "example_body =
     map_of [(''action'', JStr ''vote''), (''proof'', JStr ''0x1234''),
             (''nullifier_hash'', JStr ''0x01''), (''merkle_root'', JStr ''0xff''),
             (''credential_type'', JStr ''orb'')]"

definition example_params :: params where
  "example_params =
     \<lparr>p_action = ''vote'', p_signal = [], p_proof = ''0x1234'', p_nullifier_hash = ''0x01'',
      p_merkle_root = ''0xff'', p_credential_type = ''orb''\<rparr>"

definition example_request :: request where
  "example_request =
     \<lparr>req_method = Some ''POST'', body = example_body, query_app_id = Some (QString ''app_1'')\<rparr>"

definition example_row :: "int \<Rightarrow> nullifier" where
  "example_row u =
     \<lparr>nullifier_id = ''nil_0'', action_id = ''action_1'', nullifier_hash = ''0x01'',
      credential_type = ''orb'', created_at = ''2023-05-01T00:00:00'', uses = u\<rparr>"

section \<open>Properties\<close>


subsection \<open>The mutations and the first checks\<close>

lemmas example_defs =
  example_env_def example_request_def example_body_def example_action_def example_row_def

lemma row_matches_uses_hash:
  "row_matches [(Col_uses, VInt u), (Col_nullifier_hash, VString h)] = (\<lambda>r. uses r = u \<and> nullifier_hash r = h)"
  by (rule ext) (simp add: row_matches_def)

lemma update_rows_inc:
  "update_rows \<lparr>where_eq = [(Col_uses, VInt u), (Col_nullifier_hash, VString h)], set_cols = [], inc_cols = [(Col_uses, 1)]\<rparr> rows
   = Some (map (\<lambda>r. if uses r = u \<and> nullifier_hash r = h then r\<lparr>uses := uses r + 1\<rparr> else r) rows)"
  by (induction rows) (simp_all add: update_row_def row_matches_def)

lemma updateNullifierQuery_eq:
  "updateNullifierQuery h u rows =
     Inr (length (filter (\<lambda>r. uses r = u \<and> nullifier_hash r = h) rows),
          map (\<lambda>r. if uses r = u \<and> nullifier_hash r = h then r\<lparr>uses := uses r + 1\<rparr> else r) rows)"
  by (simp add: updateNullifierQuery_def update_nullifier_def update_permissions_def update_rows_inc row_matches_uses_hash)

lemma handleVerify_early:
  "handleVerify_checks e rows req = Inl resp \<Longrightarrow> handleVerify e rows req = (resp, rows)"
  by (simp add: handleVerify_def handleVerify_at_def handleVerify_read_def)

lemma schema_missing:
  "b ''action'' = None \<or> b ''proof'' = None \<or> b ''nullifier_hash'' = None \<or> b ''merkle_root'' = None
   \<Longrightarrow> schema allowed b = None"
  by (auto simp: schema_def Option.bind_eq_None_conv)

lemma schema_credential_type:
  assumes "\<forall>c. map_option string_cast (b ''credential_type'') = Some (JStr c) \<longrightarrow> c \<notin> set allowed"
  shows "schema allowed b = None"
proof -
  have "string_required_oneOf allowed (b ''credential_type'') = None"
  proof (cases "b ''credential_type''")
    case None
    then show ?thesis by simp
  next
    case (Some v)
    with assms show ?thesis by (cases "string_cast v") simp_all
  qed
  then show ?thesis by (simp add: schema_def Option.bind_eq_None_conv)
qed

text \<open>
  Claim C8. A request whose method is not POST (an absent method too) is answered with
  the method-not-allowed error by the first statement of the handler, before the
  schema and before the fetch; the table is as it was.
\<close>

theorem handleVerify_method_not_allowed:
  assumes "req_method req \<noteq> Some ''POST''"
  shows "handleVerify_checks e rows req = Inl (errorNotAllowed (req_method req))
       \<and> handleVerify e rows req = (errorNotAllowed (req_method req), rows)"
proof -
  have "handleVerify_checks e rows req = Inl (errorNotAllowed (req_method req))"
    using assms by (cases "req_method req") (simp_all add: handleVerify_checks_def)
  then show ?thesis by (simp add: handleVerify_early)
qed

theorem handleVerify_method_not_allowed_witness:
  "handleVerify (example_env 2) [example_row 1] (example_request\<lparr>req_method := Some ''GET''\<rparr>)
     = (errorNotAllowed (Some ''GET''), [example_row 1])
   \<and> handleVerify (example_env 2) [example_row 1] (example_request\<lparr>req_method := None\<rparr>)
     = (errorNotAllowed None, [example_row 1])"
  using handleVerify_method_not_allowed [of "example_request\<lparr>req_method := Some ''GET''\<rparr>" "example_env 2" "[example_row 1]"]
        handleVerify_method_not_allowed [of "example_request\<lparr>req_method := None\<rparr>" "example_env 2" "[example_row 1]"]
  by simp

lemma checks_not_post:
  assumes "req_method req \<noteq> Some ''POST''"
  shows "handleVerify_checks e rows req = Inl (errorNotAllowed (req_method req))"
  using assms by (cases "req_method req") (simp_all add: handleVerify_checks_def)

lemma checks_schema_fails:
  assumes "req_method req = Some ''POST''"
    and "validateRequestSchema (CredentialType e) (body req) = None"
  shows "handleVerify_checks e rows req = Inl handleError"
  using assms by (simp add: handleVerify_checks_def)

lemma checks_no_app_id:
  assumes "req_method req = Some ''POST''"
    and "validateRequestSchema (CredentialType e) (body req) \<noteq> None"
    and "\<not> truthy_query (query_app_id req)"
  shows "handleVerify_checks e rows req = Inl (errorRequiredAttribute ''app_id'')"
proof -
  from assms(2) obtain p where "validateRequestSchema (CredentialType e) (body req) = Some p" by blast
  with assms(1,3) show ?thesis
    by (cases "query_app_id req") (simp_all add: handleVerify_checks_def)
qed

text \<open>
  Claim C5, as amended. The handler checks the method, then the body, then \<open>app_id\<close>,
  and answers from the first check that fails, leaving the table as it was. A body that
  lacks \<open>action\<close>, \<open>proof\<close>, \<open>nullifier_hash\<close> or \<open>merkle_root\<close>, or whose
  \<open>credential_type\<close> is not, as the string the schema casts it to, a value of
  \<open>CredentialType\<close>, gets the schema's validation error when the request is a POST, and
  the method-not-allowed error otherwise. A request with no \<open>app_id\<close> in the query gets
  the required-attribute error for \<open>app_id\<close> when it is a POST and the schema accepts
  its body, the schema's validation error when it is a POST and the schema refuses its
  body, and the method-not-allowed error otherwise.
\<close>

theorem handleVerify_validates_first:
  "(body req ''action'' = None \<or> body req ''proof'' = None
      \<or> body req ''nullifier_hash'' = None \<or> body req ''merkle_root'' = None
      \<or> (\<forall>c. map_option string_cast (body req ''credential_type'') = Some (JStr c)
                \<longrightarrow> c \<notin> set (CredentialType e))
    \<longrightarrow> handleVerify e rows req
          = (if req_method req = Some ''POST'' then handleError
             else errorNotAllowed (req_method req), rows))
   \<and> (\<not> truthy_query (query_app_id req)
    \<longrightarrow> handleVerify e rows req
          = (if req_method req \<noteq> Some ''POST'' then errorNotAllowed (req_method req)
             else if validateRequestSchema (CredentialType e) (body req) = None then handleError
             else errorRequiredAttribute ''app_id'', rows))"
proof (intro conjI impI)
  assume bad: "body req ''action'' = None \<or> body req ''proof'' = None
      \<or> body req ''nullifier_hash'' = None \<or> body req ''merkle_root'' = None
      \<or> (\<forall>c. map_option string_cast (body req ''credential_type'') = Some (JStr c)
                \<longrightarrow> c \<notin> set (CredentialType e))"
  then have none: "validateRequestSchema (CredentialType e) (body req) = None"
    using schema_missing [of "body req" "CredentialType e"]
          schema_credential_type [of "body req" "CredentialType e"]
    unfolding validateRequestSchema_def by blast
  show "handleVerify e rows req
          = (if req_method req = Some ''POST'' then handleError
             else errorNotAllowed (req_method req), rows)"
  proof (cases "req_method req = Some ''POST''")
    case True
    from checks_schema_fails [OF True none] True show ?thesis by (simp add: handleVerify_early)
  next
    case False
    from checks_not_post [OF False] False show ?thesis by (simp add: handleVerify_early)
  qed
next
  assume no: "\<not> truthy_query (query_app_id req)"
  show "handleVerify e rows req
          = (if req_method req \<noteq> Some ''POST'' then errorNotAllowed (req_method req)
             else if validateRequestSchema (CredentialType e) (body req) = None then handleError
             else errorRequiredAttribute ''app_id'', rows)"
  proof (cases "req_method req = Some ''POST''")
    case False
    from checks_not_post [OF False] False show ?thesis by (simp add: handleVerify_early)
  next
    case True
    show ?thesis
    proof (cases "validateRequestSchema (CredentialType e) (body req) = None")
      case none: True
      from checks_schema_fails [OF True none] True none show ?thesis by (simp add: handleVerify_early)
    next
      case False
      from checks_no_app_id [OF True False no] True False show ?thesis by (simp add: handleVerify_early)
    qed
  qed
qed

theorem handleVerify_validates_first_witness:
  "handleVerify (example_env 2) [example_row 1] (example_request\<lparr>body := example_body(''proof'' := None)\<rparr>)
     = (handleError, [example_row 1])
   \<and> handleVerify (example_env 2) [example_row 1]
        (example_request\<lparr>body := example_body(''credential_type'' \<mapsto> JNum 7)\<rparr>)
     = (handleError, [example_row 1])
   \<and> handleVerify (example_env 2) [example_row 1] (example_request\<lparr>query_app_id := None\<rparr>)
     = (errorRequiredAttribute ''app_id'', [example_row 1])"
proof -
  have seven: "show_int 7 = ''7''"
    by (simp add: show_int_def show_nat.simps digit_char_def)
  have ok: "validateRequestSchema (CredentialType (example_env 2)) (body example_request) \<noteq> None"
    by (simp add: example_defs validateRequestSchema_def schema_def)
  from handleVerify_validates_first [of "example_request\<lparr>body := example_body(''proof'' := None)\<rparr>"
         "example_env 2" "[example_row 1]"]
  have a: "handleVerify (example_env 2) [example_row 1]
             (example_request\<lparr>body := example_body(''proof'' := None)\<rparr>) = (handleError, [example_row 1])"
    by (simp add: example_request_def)
  from handleVerify_validates_first [of "example_request\<lparr>body := example_body(''credential_type'' \<mapsto> JNum 7)\<rparr>"
         "example_env 2" "[example_row 1]"]
  have b: "handleVerify (example_env 2) [example_row 1]
             (example_request\<lparr>body := example_body(''credential_type'' \<mapsto> JNum 7)\<rparr>)
           = (handleError, [example_row 1])"
    by (simp add: example_request_def example_env_def seven)
  from handleVerify_validates_first [of "example_request\<lparr>query_app_id := None\<rparr>"
         "example_env 2" "[example_row 1]"] ok
  have c: "handleVerify (example_env 2) [example_row 1] (example_request\<lparr>query_app_id := None\<rparr>)
           = (errorRequiredAttribute ''app_id'', [example_row 1])"
    by (simp add: example_request_def)
  from a b c show ?thesis by simp
qed

text \<open>
  Claim C5, as stated, fails: a GET request whose body lacks \<open>proof\<close> gets the
  method-not-allowed error, not the schema's validation error; and a POST request with
  no \<open>app_id\<close> and an empty body gets the schema's validation error, not the
  required-attribute error for \<open>app_id\<close>.
\<close>

theorem earlier_check_answers:
  "body (example_request\<lparr>req_method := Some ''GET'', body := example_body(''proof'' := None)\<rparr>) ''proof''
     = None
   \<and> handleVerify (example_env 2) [example_row 1]
        (example_request\<lparr>req_method := Some ''GET'', body := example_body(''proof'' := None)\<rparr>)
     = (errorNotAllowed (Some ''GET''), [example_row 1])
   \<and> query_app_id (example_request\<lparr>body := map_of [], query_app_id := None\<rparr>) = None
   \<and> handleVerify (example_env 2) [example_row 1]
        (example_request\<lparr>body := map_of [], query_app_id := None\<rparr>)
     = (handleError, [example_row 1])"
proof -
  have "handleVerify_checks (example_env 2) [example_row 1]
        (example_request\<lparr>req_method := Some ''GET'', body := example_body(''proof'' := None)\<rparr>)
     = Inl (errorNotAllowed (Some ''GET''))"
    by (simp add: handleVerify_checks_def)
  moreover have "handleVerify_checks (example_env 2) [example_row 1]
        (example_request\<lparr>body := map_of [], query_app_id := None\<rparr>)
     = Inl handleError"
    by (simp add: handleVerify_checks_def example_request_def validateRequestSchema_def schema_def)
  ultimately show ?thesis by (simp add: handleVerify_early)
qed

subsection \<open>A request that passes the checks\<close>

lemma checks_reached:
  assumes "handleVerify_checks e rows req = Inr (p, app, ext)"
  shows "req_method req = Some ''POST''"
    and "validateRequestSchema (CredentialType e) (body req) = Some p"
    and "\<exists>q. query_app_id req = Some q \<and> truthy_query (Some q)
           \<and> fetchActionForProof e rows (query_toString q) (p_nullifier_hash p) (p_action p)
               = \<lparr>fetch_error = None, fetch_app = Some app\<rparr>"
    and "status (app_action app) \<noteq> ''inactive''"
    and "canVerifyForAction (app_nullifier app) (max_verifications (app_action app))"
    and "or_null (external_nullifier (app_action app)) = Some ext"
  using assms
  by (auto simp: handleVerify_checks_def Let_def split: if_splits option.splits)



lemma string_strict_required_Some:
  "string_strict_required v = Some s \<Longrightarrow> v = Some (JStr s)"
  by (cases v rule: string_strict_required.cases) (auto split: if_splits)

lemma schema_nullifier_hash:
  assumes "schema allowed b = Some p"
  shows "b ''nullifier_hash'' = Some (JStr (p_nullifier_hash p))"
proof -
  from assms obtain h where h: "string_strict_required (b ''nullifier_hash'') = Some h"
    and p: "p_nullifier_hash p = h"
    by (auto simp: schema_def Option.bind_eq_Some_conv)
  from string_strict_required_Some [OF h] p show ?thesis by simp
qed

lemma fetch_with_verifier [simp]:
  "fetchActionForProof (e\<lparr>verifyProof := v\<rparr>) = fetchActionForProof e"
  by (intro ext) (simp add: fetchActionForProof_def)

lemma checks_with_verifier [simp]:
  "handleVerify_checks (e\<lparr>verifyProof := v\<rparr>) rows req = handleVerify_checks e rows req"
  unfolding handleVerify_checks_def fetch_with_verifier by simp

text \<open>
  Claim C6. When the request has passed the earlier checks and \<open>canVerifyForAction\<close>
  returns false for the fetched nullifier and the action's \<open>max_verifications\<close>, the
  handler answers with the validation error \<open>already_verified\<close> and leaves the table as
  it was, whatever the external verifier would have answered: it is not called. The
  message is the one without a number exactly when \<open>max_verifications\<close> is 1, and the
  one with the maximum number of times otherwise.
\<close>

theorem already_verified_before_verifier:
  assumes "req_method req = Some ''POST''"
    and "validateRequestSchema (CredentialType e) (body req) = Some p"
    and "query_app_id req = Some q" and "truthy_query (Some q)"
    and "fetchActionForProof e rows (query_toString q) (p_nullifier_hash p) (p_action p)
           = \<lparr>fetch_error = None, fetch_app = Some app\<rparr>"
    and "status (app_action app) \<noteq> ''inactive''"
    and "\<not> canVerifyForAction (app_nullifier app) (max_verifications (app_action app))"
  shows "\<exists>msg. handleVerify (e\<lparr>verifyProof := v\<rparr>) rows req
                 = (errorValidation ''already_verified'' msg None, rows)
           \<and> (msg = ''This person has already verified for this action.''
                \<longleftrightarrow> max_verifications (app_action app) = 1)
           \<and> (max_verifications (app_action app) \<noteq> 1 \<longrightarrow>
                msg = ''This person has already verified for this action the maximum number of times (''
                      @ show_int (max_verifications (app_action app)) @ '').'')"
proof -
  let ?m = "max_verifications (app_action app)"
  let ?msg = "if ?m = 1 then ''This person has already verified for this action.''
              else ''This person has already verified for this action the maximum number of times (''
                   @ show_int ?m @ '').''"
  have "handleVerify_checks e rows req = Inl (errorValidation ''already_verified'' ?msg None)"
    using assms by (simp add: handleVerify_checks_def del: truthy_query.simps)
  then have "handleVerify (e\<lparr>verifyProof := v\<rparr>) rows req = (errorValidation ''already_verified'' ?msg None, rows)"
    by (simp add: handleVerify_early)
  moreover have "?msg = ''This person has already verified for this action.'' \<longleftrightarrow> ?m = 1"
    by simp
  moreover have "?m \<noteq> 1 \<longrightarrow> ?msg = ''This person has already verified for this action the maximum number of times (''
                      @ show_int ?m @ '').''"
    by simp
  ultimately show ?thesis by blast
qed

theorem already_verified_before_verifier_witness:
  "handleVerify
     ((example_env 1)\<lparr>verifyProof := (\<lambda>p opts. \<lparr>verify_error = None, verify_success = False\<rparr>)\<rparr>)
     [example_row 1] example_request
   = (errorValidation ''already_verified'' ''This person has already verified for this action.'' None,
      [example_row 1])
   \<and> handleVerify (example_env 2) [example_row 2] example_request
   = (errorValidation ''already_verified''
        ''This person has already verified for this action the maximum number of times (2).'' None,
      [example_row 2])"
proof -
  have s: "validateRequestSchema (CredentialType (example_env m)) (body example_request) = Some example_params" for m
    by (simp add: example_defs example_params_def validateRequestSchema_def schema_def)
  have q: "query_app_id example_request = Some (QString ''app_1'')" "truthy_query (Some (QString ''app_1''))"
    by (simp_all add: example_defs)
  have f: "fetchActionForProof (example_env m) [example_row u] (query_toString (QString ''app_1''))
             (p_nullifier_hash example_params) (p_action example_params)
           = \<lparr>fetch_error = None, fetch_app = Some \<lparr>is_staging = False, app_action = example_action m,
                app_nullifier = Some (example_row u)\<rparr>\<rparr>" for m u
    by (simp add: example_defs example_params_def fetchActionForProof_def)
  have m: "req_method example_request = Some ''POST''" by (simp add: example_defs)
  have sh: "show_int 2 = ''2''"
    by (simp add: show_int_def show_nat.simps digit_char_def)
  have e2: "(example_env 2)\<lparr>verifyProof := verifyProof (example_env 2)\<rparr> = example_env 2" by simp
  from already_verified_before_verifier [OF m s q f [of 1 1], of "\<lambda>p opts. \<lparr>verify_error = None, verify_success = False\<rparr>"]
       already_verified_before_verifier [OF m s q f [of 2 2], of "verifyProof (example_env 2)"]
  show ?thesis
    by (simp add: e2 sh canVerifyForAction_def example_action_def example_row_def)
qed



subsection \<open>The external verifier\<close>

lemma read_Inr:
  assumes "handleVerify_read e rows req = Inr s"
  shows "\<exists>p app ext. handleVerify_checks e rows req = Inr (p, app, ext)
           \<and> handleVerify_proof e (p, app, ext) = Inr s"
  using assms by (auto simp: handleVerify_read_def split: sum.splits)

lemma proof_Inr:
  assumes "handleVerify_proof e (p, app, ext) = Inr s"
  shows "s = \<lparr>seen_params = p, seen_action = app_action app, seen_nullifier = app_nullifier app\<rparr>"
    and "verify_error (verifyProof e (p_signal p, p_proof p, p_merkle_root p, p_nullifier_hash p, ext)
                         (is_staging app, p_credential_type p)) = None"
    and "verify_success (verifyProof e (p_signal p, p_proof p, p_merkle_root p, p_nullifier_hash p, ext)
                         (is_staging app, p_credential_type p))"
  using assms by (auto simp: handleVerify_proof_def Let_def split: if_splits)

lemma checks_never_success:
  "handleVerify_checks e rows req \<noteq> Inl (json200 b)"
  by (auto simp: handleVerify_checks_def error_or_default_def Let_def split: option.splits)

lemma proof_never_success:
  "handleVerify_proof e c \<noteq> Inl (json200 b)"
  by (auto simp: handleVerify_proof_def error_or_default_def Let_def split: prod.splits)

lemma at_success_read:
  assumes "handleVerify_at e rows rows' req = (json200 b, rows'')"
  shows "\<exists>s. handleVerify_read e rows req = Inr s \<and> handleVerify_write e s rows' = (json200 b, rows'')"
proof (cases "handleVerify_read e rows req")
  case (Inl resp)
  with assms have r: "resp = json200 b" by (simp add: handleVerify_at_def)
  from Inl r show ?thesis
    using checks_never_success [of e rows req b] proof_never_success [of e _ b]
    by (auto simp: handleVerify_read_def split: sum.splits)
next
  case (Inr s)
  with assms show ?thesis by (simp add: handleVerify_at_def)
qed

lemma example_checks:
  "handleVerify_checks (example_env 3) [example_row 1] example_request
     = Inr (example_params, \<lparr>is_staging = False, app_action = example_action 3,
                              app_nullifier = Some (example_row 1)\<rparr>, ''0x2a'')"
  by (simp add: handleVerify_checks_def example_defs example_params_def validateRequestSchema_def
      schema_def fetchActionForProof_def canVerifyForAction_def)

lemma example_read:
  "handleVerify_read (example_env 3) [example_row 1] example_request
     = Inr \<lparr>seen_params = example_params, seen_action = example_action 3,
            seen_nullifier = Some (example_row 1)\<rparr>"
  by (simp add: handleVerify_read_def example_checks handleVerify_proof_def) (simp add: example_env_def)

subsection \<open>The snapshot and the mutation\<close>

lemma find_SomeD:
  "find P xs = Some x \<Longrightarrow> x \<in> set xs \<and> P x"
  by (induction xs) (auto split: if_splits)

lemma checks_nullifier:
  assumes "handleVerify_checks e rows req = Inr (p, app, ext)"
    and "app_nullifier app = Some n"
  shows "n \<in> set rows" and "nullifier_hash n = p_nullifier_hash p"
    and "action_id n = action_pk (app_action app)"
proof -
  from checks_reached(3) [OF assms(1)] obtain q where
    f: "fetchActionForProof e rows (query_toString q) (p_nullifier_hash p) (p_action p)
          = \<lparr>fetch_error = None, fetch_app = Some app\<rparr>" by blast
  then have "find (\<lambda>r. action_id r = action_pk (app_action app) \<and> nullifier_hash r = p_nullifier_hash p) rows = Some n"
    using assms(2)
    by (auto simp: fetchActionForProof_def split: prod.splits)
  from find_SomeD [OF this]
  show "n \<in> set rows" and "nullifier_hash n = p_nullifier_hash p"
    and "action_id n = action_pk (app_action app)" by simp_all
qed

lemma read_snapshot:
  assumes "handleVerify_read e rows req = Inr s"
  shows "body req ''nullifier_hash'' = Some (JStr (p_nullifier_hash (seen_params s)))"
    and "\<And>n. seen_nullifier s = Some n \<Longrightarrow>
           n \<in> set rows \<and> nullifier_hash n = p_nullifier_hash (seen_params s)
           \<and> action_id n = action_pk (seen_action s)"
    and "canVerifyForAction (seen_nullifier s) (max_verifications (seen_action s))"
proof -
  from read_Inr [OF assms] obtain p app ext where
    c: "handleVerify_checks e rows req = Inr (p, app, ext)"
    and pr: "handleVerify_proof e (p, app, ext) = Inr s" by blast
  note s = proof_Inr(1) [OF pr]
  from checks_reached(2) [OF c] s
  show "body req ''nullifier_hash'' = Some (JStr (p_nullifier_hash (seen_params s)))"
    by (simp add: validateRequestSchema_def schema_nullifier_hash)
  from checks_reached(5) [OF c] s
  show "canVerifyForAction (seen_nullifier s) (max_verifications (seen_action s))" by simp
  fix n assume "seen_nullifier s = Some n"
  with s have "app_nullifier app = Some n" by simp
  from checks_nullifier [OF c this] s
  show "n \<in> set rows \<and> nullifier_hash n = p_nullifier_hash (seen_params s)
           \<and> action_id n = action_pk (seen_action s)" by simp
qed

lemma write_update:
  assumes "seen_nullifier s = Some n"
  shows "handleVerify_write e s rows =
     (if \<forall>r\<in>set rows. \<not> (uses r = uses n \<and> nullifier_hash r = nullifier_hash n)
      then (errorValidation ''already_verified'' ''This person has already verified for this action.'' None, rows)
      else (json200 \<lparr>success = True, body_uses = uses n + 1, body_action = action_name (seen_action s),
                      body_created_at = created_at n, max_uses = max_verifications (seen_action s),
                      body_nullifier_hash = nullifier_hash n\<rparr>,
            map (\<lambda>r. if uses r = uses n \<and> nullifier_hash r = nullifier_hash n
                      then r\<lparr>uses := uses r + 1\<rparr> else r) rows))"
proof (cases "\<forall>r\<in>set rows. \<not> (uses r = uses n \<and> nullifier_hash r = nullifier_hash n)")
  case True
  then have "filter (\<lambda>r. uses r = uses n \<and> nullifier_hash r = nullifier_hash n) rows = []"
    by (simp add: filter_empty_conv)
  moreover from True have "map (\<lambda>r. if uses r = uses n \<and> nullifier_hash r = nullifier_hash n
                      then r\<lparr>uses := uses r + 1\<rparr> else r) rows = rows"
    by (simp add: map_idI)
  ultimately show ?thesis using assms True
    by (simp add: handleVerify_write_def updateNullifierQuery_eq Let_def)
next
  case False
  then have "filter (\<lambda>r. uses r = uses n \<and> nullifier_hash r = nullifier_hash n) rows \<noteq> []"
    by (simp add: filter_empty_conv)
  then show ?thesis using assms False
    by (auto simp: handleVerify_write_def updateNullifierQuery_eq Let_def)
qed

lemma write_insert:
  assumes "seen_nullifier s = None"
  shows "handleVerify_write e s rows =
     (if \<exists>r\<in>set rows. nullifier_hash r = p_nullifier_hash (seen_params s)
      then (errorValidation ''already_verified'' ''This person has already verified for this action.'' None, rows)
      else (json200 \<lparr>success = True, body_uses = 1, body_action = action_name (seen_action s),
                      body_created_at = now e, max_uses = max_verifications (seen_action s),
                      body_nullifier_hash = p_nullifier_hash (seen_params s)\<rparr>,
            rows @ [\<lparr>nullifier_id = generated_id e, action_id = action_pk (seen_action s),
                      nullifier_hash = p_nullifier_hash (seen_params s),
                      credential_type = p_credential_type (seen_params s),
                      created_at = now e, uses = 1\<rparr>]))"
  using assms
  by (simp add: handleVerify_write_def insertNullifierQuery_def violates_unique_hash_def
      default_uses_def list_ex_iff Let_def)

lemma write_success_iff:
  "(\<exists>b rows'. handleVerify_write e s rows = (json200 b, rows'))
     \<longleftrightarrow> still_as_fetched (seen_nullifier s) (p_nullifier_hash (seen_params s)) rows"
proof (cases "seen_nullifier s")
  case None
  then show ?thesis by (auto simp: write_insert still_as_fetched_def list_ex_iff)
next
  case (Some n)
  then show ?thesis by (auto simp: write_update [OF Some] still_as_fetched_def list_ex_iff)
qed

lemma write_changed:
  assumes "\<not> still_as_fetched (seen_nullifier s) (p_nullifier_hash (seen_params s)) rows"
  shows "handleVerify_write e s rows
           = (errorValidation ''already_verified''
                ''This person has already verified for this action.'' None, rows)"
proof (cases "seen_nullifier s")
  case None
  with assms show ?thesis by (auto simp: write_insert still_as_fetched_def list_ex_iff)
next
  case (Some n)
  with assms show ?thesis by (auto simp: write_update [OF Some] still_as_fetched_def list_ex_iff)
qed

lemma at_verifier_accepts:
  assumes "handleVerify_checks e rows req = Inr (p, app, ext)"
    and "verify_error (verifyProof e (p_signal p, p_proof p, p_merkle_root p, p_nullifier_hash p, ext)
                         (is_staging app, p_credential_type p)) = None"
    and "verify_success (verifyProof e (p_signal p, p_proof p, p_merkle_root p, p_nullifier_hash p, ext)
                         (is_staging app, p_credential_type p))"
  shows "handleVerify_at e rows rows' req
           = handleVerify_write e \<lparr>seen_params = p, seen_action = app_action app,
                                    seen_nullifier = app_nullifier app\<rparr> rows'"
  using assms by (simp add: handleVerify_at_def handleVerify_read_def handleVerify_proof_def)

lemma at_verifier_refuses:
  assumes "handleVerify_checks e rows req = Inr (p, app, ext)"
    and "r = verifyProof e (p_signal p, p_proof p, p_merkle_root p, p_nullifier_hash p, ext)
               (is_staging app, p_credential_type p)"
    and "verify_error r \<noteq> None \<or> \<not> verify_success r"
  shows "handleVerify_at e rows rows' req
           = (errorResponse
               (or_int (Option.bind (verify_error r) statusCode) 400)
               (or_string (Option.bind (verify_error r) code) ''unknown_error'')
               (or_string (Option.bind (verify_error r) message) ''There was an error verifying this proof.'')
               (or_null (Option.bind (verify_error r) attribute)),
              rows')"
proof -
  from assms(2,3) have "handleVerify_proof e (p, app, ext) = Inl (error_or_default (verify_error r))"
    by (auto simp: handleVerify_proof_def Let_def)
  with assms(1) show ?thesis
    by (simp add: handleVerify_at_def handleVerify_read_def error_or_default_def)
qed

text \<open>
  Claim C4, as amended. A success response is given only if \<open>verifyProof\<close> was called
  and reported success with no error. For a request that reaches the verifier, the
  response is a success response if and only if the verifier reported success with no
  error and the table, at the time of the mutation, still holds what the request
  fetched; when the verifier accepted and the table has changed, the answer is
  \<open>already_verified\<close> and nothing is written. A request that fetched a nullifier and is
  handled with no other request in between succeeds whenever the verifier accepts.
  When the verifier returns an error or no success, the handler answers with that
  error, each field falling back to its default (the status code to 400), and writes
  nothing: the table is as the other requests left it.
\<close>

theorem verifier_decides:
  "(\<forall>b rows''. handleVerify_at e rows rows' req = (json200 b, rows'') \<longrightarrow>
      (\<exists>p app ext. handleVerify_checks e rows req = Inr (p, app, ext)
         \<and> verify_error (verifyProof e (p_signal p, p_proof p, p_merkle_root p, p_nullifier_hash p, ext)
                           (is_staging app, p_credential_type p)) = None
         \<and> verify_success (verifyProof e (p_signal p, p_proof p, p_merkle_root p, p_nullifier_hash p, ext)
                           (is_staging app, p_credential_type p))))
   \<and> (\<forall>p app ext r.
        handleVerify_checks e rows req = Inr (p, app, ext)
        \<and> r = verifyProof e (p_signal p, p_proof p, p_merkle_root p, p_nullifier_hash p, ext)
                 (is_staging app, p_credential_type p) \<longrightarrow>
        ((\<exists>b rows''. handleVerify_at e rows rows' req = (json200 b, rows''))
           \<longleftrightarrow> verify_error r = None \<and> verify_success r
               \<and> still_as_fetched (app_nullifier app) (p_nullifier_hash p) rows')
        \<and> (verify_error r = None \<and> verify_success r
             \<and> \<not> still_as_fetched (app_nullifier app) (p_nullifier_hash p) rows' \<longrightarrow>
             handleVerify_at e rows rows' req
               = (errorValidation ''already_verified''
                    ''This person has already verified for this action.'' None, rows'))
        \<and> (verify_error r = None \<and> verify_success r \<and> app_nullifier app \<noteq> None \<longrightarrow>
             (\<exists>b rows''. handleVerify e rows req = (json200 b, rows'')))
        \<and> (verify_error r \<noteq> None \<or> \<not> verify_success r \<longrightarrow>
             handleVerify_at e rows rows' req
               = (errorResponse
                    (or_int (Option.bind (verify_error r) statusCode) 400)
                    (or_string (Option.bind (verify_error r) code) ''unknown_error'')
                    (or_string (Option.bind (verify_error r) message)
                       ''There was an error verifying this proof.'')
                    (or_null (Option.bind (verify_error r) attribute)),
                  rows')))"
proof (intro conjI allI impI)
  fix b rows''
  assume "handleVerify_at e rows rows' req = (json200 b, rows'')"
  then obtain s where "handleVerify_read e rows req = Inr s" using at_success_read by blast
  then obtain p app ext where c: "handleVerify_checks e rows req = Inr (p, app, ext)"
    and pr: "handleVerify_proof e (p, app, ext) = Inr s" using read_Inr by blast
  from c proof_Inr(2,3) [OF pr]
  show "\<exists>p app ext. handleVerify_checks e rows req = Inr (p, app, ext)
         \<and> verify_error (verifyProof e (p_signal p, p_proof p, p_merkle_root p, p_nullifier_hash p, ext)
                           (is_staging app, p_credential_type p)) = None
         \<and> verify_success (verifyProof e (p_signal p, p_proof p, p_merkle_root p, p_nullifier_hash p, ext)
                           (is_staging app, p_credential_type p))"
    by blast
next
  fix p app ext r
  assume a: "handleVerify_checks e rows req = Inr (p, app, ext)
        \<and> r = verifyProof e (p_signal p, p_proof p, p_merkle_root p, p_nullifier_hash p, ext)
                 (is_staging app, p_credential_type p)"
  then have c: "handleVerify_checks e rows req = Inr (p, app, ext)"
    and r: "r = verifyProof e (p_signal p, p_proof p, p_merkle_root p, p_nullifier_hash p, ext)
                 (is_staging app, p_credential_type p)" by simp_all
  let ?s = "\<lparr>seen_params = p, seen_action = app_action app, seen_nullifier = app_nullifier app\<rparr>"
  have acc: "handleVerify_at e rows t req = handleVerify_write e ?s t"
    if "verify_error r = None" "verify_success r" for t
    using at_verifier_accepts [OF c] that unfolding r by blast
  have ref: "handleVerify_at e rows rows' req
               = (errorResponse
                    (or_int (Option.bind (verify_error r) statusCode) 400)
                    (or_string (Option.bind (verify_error r) code) ''unknown_error'')
                    (or_string (Option.bind (verify_error r) message)
                       ''There was an error verifying this proof.'')
                    (or_null (Option.bind (verify_error r) attribute)),
                  rows')"
    if "verify_error r \<noteq> None \<or> \<not> verify_success r"
    using at_verifier_refuses [OF c r that] .
  show "(\<exists>b rows''. handleVerify_at e rows rows' req = (json200 b, rows''))
           \<longleftrightarrow> verify_error r = None \<and> verify_success r
               \<and> still_as_fetched (app_nullifier app) (p_nullifier_hash p) rows'"
  proof (cases "verify_error r = None \<and> verify_success r")
    case True
    with acc [of rows'] write_success_iff [of e ?s rows'] show ?thesis by simp
  next
    case False
    with ref show ?thesis by auto
  qed
  show "handleVerify_at e rows rows' req
               = (errorValidation ''already_verified''
                    ''This person has already verified for this action.'' None, rows')"
    if "verify_error r = None \<and> verify_success r
             \<and> \<not> still_as_fetched (app_nullifier app) (p_nullifier_hash p) rows'"
    using that acc [of rows'] write_changed [of ?s rows' e] by simp
  show "\<exists>b rows''. handleVerify e rows req = (json200 b, rows'')"
    if ok: "verify_error r = None \<and> verify_success r \<and> app_nullifier app \<noteq> None"
  proof -
    from ok obtain n where n: "app_nullifier app = Some n" by blast
    from checks_nullifier(1) [OF c n]
    have "still_as_fetched (app_nullifier app) (p_nullifier_hash p) rows"
      by (auto simp: n still_as_fetched_def list_ex_iff)
    with ok acc [of rows] write_success_iff [of e ?s rows] show ?thesis
      by (simp add: handleVerify_def)
  qed
  show "handleVerify_at e rows rows' req
               = (errorResponse
                    (or_int (Option.bind (verify_error r) statusCode) 400)
                    (or_string (Option.bind (verify_error r) code) ''unknown_error'')
                    (or_string (Option.bind (verify_error r) message)
                       ''There was an error verifying this proof.'')
                    (or_null (Option.bind (verify_error r) attribute)),
                  rows')"
    if "verify_error r \<noteq> None \<or> \<not> verify_success r"
    using ref [OF that] .
qed

theorem verifier_decides_witness:
  "handleVerify_at (example_env 3) [example_row 1] [example_row 1] example_request
     = (json200 \<lparr>success = True, body_uses = 2, body_action = Some ''vote'',
                 body_created_at = ''2023-05-01T00:00:00'', max_uses = 3,
                 body_nullifier_hash = ''0x01''\<rparr>, [example_row 2])
   \<and> verify_success (verifyProof (example_env 3) ([], ''0x1234'', ''0xff'', ''0x01'', ''0x2a'') (False, ''orb''))
   \<and> still_as_fetched (Some (example_row 1)) ''0x01'' [example_row 1]
   \<and> \<not> still_as_fetched (Some (example_row 1)) ''0x01'' [example_row 2]
   \<and> handleVerify_at (example_env 3) [example_row 1] [example_row 2] example_request
     = (errorValidation ''already_verified''
          ''This person has already verified for this action.'' None, [example_row 2])
   \<and> handleVerify_at
        ((example_env 3)\<lparr>verifyProof := (\<lambda>p opts. \<lparr>verify_error = None, verify_success = False\<rparr>)\<rparr>)
        [example_row 1] [example_row 2] example_request
     = (errorResponse 400 ''unknown_error'' ''There was an error verifying this proof.'' None,
        [example_row 2])"
proof -
  let ?e = "(example_env 3)\<lparr>verifyProof := (\<lambda>p opts. \<lparr>verify_error = None, verify_success = False\<rparr>)\<rparr>"
  let ?app = "\<lparr>is_staging = False, app_action = example_action 3, app_nullifier = Some (example_row 1)\<rparr>"
  have w: "handleVerify_at (example_env 3) [example_row 1] [example_row 1] example_request
     = (json200 \<lparr>success = True, body_uses = 2, body_action = Some ''vote'',
                 body_created_at = ''2023-05-01T00:00:00'', max_uses = 3,
                 body_nullifier_hash = ''0x01''\<rparr>, [example_row 2])"
    by (simp add: handleVerify_at_def example_read handleVerify_write_def updateNullifierQuery_eq)
       (simp add: example_row_def example_action_def)
  have c: "handleVerify_checks ?e [example_row 1] example_request = Inr (example_params, ?app, ''0x2a'')"
    by (simp add: example_checks)
  have v: "verifyProof (example_env 3) ([], ''0x1234'', ''0xff'', ''0x01'', ''0x2a'') (False, ''orb'')
             = \<lparr>verify_error = None, verify_success = True\<rparr>"
    by (simp add: example_env_def)
  have s1: "still_as_fetched (Some (example_row 1)) ''0x01'' [example_row 1]"
    by (simp add: still_as_fetched_def)
  have s2: "\<not> still_as_fetched (Some (example_row 1)) ''0x01'' [example_row 2]"
    by (simp add: still_as_fetched_def example_row_def)
  from verifier_decides [of "example_env 3" "[example_row 1]" "[example_row 1]" example_request] w example_checks
  have "verify_success (verifyProof (example_env 3) ([], ''0x1234'', ''0xff'', ''0x01'', ''0x2a'') (False, ''orb''))"
    by (simp add: example_params_def)
  moreover from verifier_decides [of "example_env 3" "[example_row 1]" "[example_row 2]" example_request]
      example_checks v s2
  have "handleVerify_at (example_env 3) [example_row 1] [example_row 2] example_request
     = (errorValidation ''already_verified''
          ''This person has already verified for this action.'' None, [example_row 2])"
    by (simp add: example_params_def)
  moreover from verifier_decides [of ?e "[example_row 1]" "[example_row 2]" example_request] c
  have "handleVerify_at ?e [example_row 1] [example_row 2] example_request
     = (errorResponse 400 ''unknown_error'' ''There was an error verifying this proof.'' None,
        [example_row 2])"
    by simp
  ultimately show ?thesis using w s1 s2 by simp
qed

text \<open>
  Claim C4, as stated, fails: the verifier reports success with no error, another
  request increments the nullifier between this request's fetch and its mutation, and
  this request is answered with \<open>already_verified\<close>, not with a success response.
\<close>

theorem verifier_success_not_sufficient:
  "handleVerify_checks (example_env 3) [example_row 1] example_request
     = Inr (example_params, \<lparr>is_staging = False, app_action = example_action 3,
                              app_nullifier = Some (example_row 1)\<rparr>, ''0x2a'')
   \<and> verifyProof (example_env 3) ([], ''0x1234'', ''0xff'', ''0x01'', ''0x2a'') (False, ''orb'')
     = \<lparr>verify_error = None, verify_success = True\<rparr>
   \<and> snd (handleVerify (example_env 3) [example_row 1] example_request) = [example_row 2]
   \<and> handleVerify_at (example_env 3) [example_row 1] [example_row 2] example_request
     = (errorValidation ''already_verified'' ''This person has already verified for this action.'' None,
        [example_row 2])"
proof -
  have "handleVerify_at (example_env 3) [example_row 1] [example_row 1] example_request
     = (json200 \<lparr>success = True, body_uses = 2, body_action = Some ''vote'',
                 body_created_at = ''2023-05-01T00:00:00'', max_uses = 3,
                 body_nullifier_hash = ''0x01''\<rparr>, [example_row 2])"
    by (simp add: handleVerify_at_def example_read handleVerify_write_def updateNullifierQuery_eq)
       (simp add: example_row_def example_action_def)
  moreover have "handleVerify_at (example_env 3) [example_row 1] [example_row 2] example_request
     = (errorValidation ''already_verified'' ''This person has already verified for this action.'' None,
        [example_row 2])"
    by (simp add: handleVerify_at_def example_read handleVerify_write_def updateNullifierQuery_eq)
       (simp add: example_row_def)
  moreover have "verifyProof (example_env 3) ([], ''0x1234'', ''0xff'', ''0x01'', ''0x2a'') (False, ''orb'')
     = \<lparr>verify_error = None, verify_success = True\<rparr>"
    by (simp add: example_env_def)
  ultimately show ?thesis by (simp add: example_checks handleVerify_def)
qed

text \<open>
  Claim C3. For a request that fetched a nullifier, the mutation increments \<open>uses\<close> by 1
  on exactly the rows of the current table whose \<open>nullifier_hash\<close> is the request's hash
  and whose \<open>uses\<close> is the value the request read at its fetch, and changes nothing else.
  When no row matches, \<open>affected_rows\<close> is 0, the answer is the validation error
  \<open>already_verified\<close> and the table is unchanged.
\<close>

theorem conditional_update:
  assumes "handleVerify_read e rows req = Inr s" and "seen_nullifier s = Some n"
  shows "n \<in> set rows
       \<and> body req ''nullifier_hash'' = Some (JStr (nullifier_hash n))
       \<and> updateNullifierQuery (nullifier_hash n) (uses n) rows'
           = Inr (length (filter (\<lambda>r. uses r = uses n \<and> nullifier_hash r = nullifier_hash n) rows'),
                  map (\<lambda>r. if uses r = uses n \<and> nullifier_hash r = nullifier_hash n
                            then r\<lparr>uses := uses r + 1\<rparr> else r) rows')
       \<and> snd (handleVerify_at e rows rows' req)
           = map (\<lambda>r. if uses r = uses n \<and> nullifier_hash r = nullifier_hash n
                       then r\<lparr>uses := uses r + 1\<rparr> else r) rows'
       \<and> (filter (\<lambda>r. uses r = uses n \<and> nullifier_hash r = nullifier_hash n) rows' = [] \<longrightarrow>
            handleVerify_at e rows rows' req
              = (errorValidation ''already_verified''
                   ''This person has already verified for this action.'' None, rows'))"
proof -
  note sn = read_snapshot(2) [OF assms]
  have at: "handleVerify_at e rows rows' req = handleVerify_write e s rows'"
    using assms(1) by (simp add: handleVerify_at_def)
  have idle: "map (\<lambda>r. if uses r = uses n \<and> nullifier_hash r = nullifier_hash n
                       then r\<lparr>uses := uses r + 1\<rparr> else r) rows' = rows'"
    if "\<forall>r\<in>set rows'. \<not> (uses r = uses n \<and> nullifier_hash r = nullifier_hash n)"
    using that by (simp add: map_idI)
  have "n \<in> set rows" using sn by simp
  moreover have "body req ''nullifier_hash'' = Some (JStr (nullifier_hash n))"
    using read_snapshot(1) [OF assms(1)] sn by simp
  moreover have "snd (handleVerify_at e rows rows' req)
           = map (\<lambda>r. if uses r = uses n \<and> nullifier_hash r = nullifier_hash n
                       then r\<lparr>uses := uses r + 1\<rparr> else r) rows'"
    using idle by (simp add: at write_update [OF assms(2)])
  moreover have "filter (\<lambda>r. uses r = uses n \<and> nullifier_hash r = nullifier_hash n) rows' = [] \<longrightarrow>
            handleVerify_at e rows rows' req
              = (errorValidation ''already_verified''
                   ''This person has already verified for this action.'' None, rows')"
    by (simp add: at write_update [OF assms(2)] filter_empty_conv)
  ultimately show ?thesis by (simp add: updateNullifierQuery_eq)
qed

theorem conditional_update_witness:
  "snd (handleVerify_at (example_env 3) [example_row 1] [example_row 1] example_request) = [example_row 2]
   \<and> handleVerify_at (example_env 3) [example_row 1] [example_row 2] example_request
       = (errorValidation ''already_verified''
            ''This person has already verified for this action.'' None, [example_row 2])"
proof -
  let ?s = "\<lparr>seen_params = example_params, seen_action = example_action 3,
             seen_nullifier = Some (example_row 1)\<rparr>"
  have n: "seen_nullifier ?s = Some (example_row 1)" by simp
  from conditional_update [OF example_read n, of "[example_row 1]"]
       conditional_update [OF example_read n, of "[example_row 2]"]
  show ?thesis by (simp add: example_row_def)
qed



lemma incremented_row_present:
  assumes "r \<in> set rows" and "uses r = u" and "nullifier_hash r = h"
  shows "\<exists>r'\<in>set (map (\<lambda>r. if uses r = u \<and> nullifier_hash r = h
                               then r\<lparr>uses := uses r + 1\<rparr> else r) rows).
           nullifier_hash r' = h \<and> uses r' = u + 1"
proof -
  let ?f = "\<lambda>r. if uses r = u \<and> nullifier_hash r = h then r\<lparr>uses := uses r + 1\<rparr> else r"
  from assms(1) have "?f r \<in> set (map ?f rows)" by simp
  moreover from assms(2,3) have "nullifier_hash (?f r) = h \<and> uses (?f r) = u + 1" by simp
  ultimately show ?thesis by blast
qed

text \<open>
  Claim C7. A success response reports the state after the mutation: \<open>success\<close> is
  true, \<open>max_uses\<close> is the \<open>max_verifications\<close> of the fetched action,
  \<open>nullifier_hash\<close> is the hash of the request; \<open>uses\<close> is 1 when the nullifier was
  just inserted, and the uses read at the fetch plus 1 when an existing nullifier was
  updated. In both cases the table then holds a row with that hash and that number of
  uses.
\<close>

theorem success_reports_state:
  assumes "handleVerify_at e rows rows' req = (json200 b, rows'')"
  shows "\<exists>s. handleVerify_read e rows req = Inr s
           \<and> success b
           \<and> max_uses b = max_verifications (seen_action s)
           \<and> body req ''nullifier_hash'' = Some (JStr (body_nullifier_hash b))
           \<and> (case seen_nullifier s of
                None \<Rightarrow> body_uses b = 1
                  \<and> (\<exists>r. rows'' = rows' @ [r] \<and> nullifier_hash r = body_nullifier_hash b \<and> uses r = 1)
              | Some n \<Rightarrow> n \<in> set rows \<and> body_uses b = uses n + 1
                  \<and> (\<exists>r\<in>set rows''. nullifier_hash r = body_nullifier_hash b \<and> uses r = body_uses b))"
proof -
  from at_success_read [OF assms] obtain s where
    r: "handleVerify_read e rows req = Inr s"
    and w: "handleVerify_write e s rows' = (json200 b, rows'')" by blast
  note h = read_snapshot(1) [OF r]
  show ?thesis
  proof (cases "seen_nullifier s")
    case None
    from w have "success b \<and> max_uses b = max_verifications (seen_action s)
        \<and> body_nullifier_hash b = p_nullifier_hash (seen_params s) \<and> body_uses b = 1
        \<and> (\<exists>r. rows'' = rows' @ [r] \<and> nullifier_hash r = body_nullifier_hash b \<and> uses r = 1)"
      by (auto simp: write_insert [OF None] split: if_splits)
    with r h None show ?thesis by auto
  next
    case (Some n)
    note sn = read_snapshot(2) [OF r Some]
    from w have "success b \<and> max_uses b = max_verifications (seen_action s)
        \<and> body_nullifier_hash b = nullifier_hash n \<and> body_uses b = uses n + 1
        \<and> (\<exists>r\<in>set rows''. nullifier_hash r = body_nullifier_hash b \<and> uses r = body_uses b)"
      using incremented_row_present [of _ rows' "uses n" "nullifier_hash n"]
      by (auto simp: write_update [OF Some] simp del: set_map split: if_splits)
    with r h sn Some show ?thesis by auto
  qed
qed

theorem success_reports_state_witness:
  "handleVerify_at (example_env 3) [example_row 1] [example_row 1] example_request
     = (json200 \<lparr>success = True, body_uses = 2, body_action = Some ''vote'',
                 body_created_at = ''2023-05-01T00:00:00'', max_uses = 3,
                 body_nullifier_hash = ''0x01''\<rparr>, [example_row 2])
   \<and> body example_request ''nullifier_hash'' = Some (JStr ''0x01'')"
proof -
  have w: "handleVerify_at (example_env 3) [example_row 1] [example_row 1] example_request
     = (json200 \<lparr>success = True, body_uses = 2, body_action = Some ''vote'',
                 body_created_at = ''2023-05-01T00:00:00'', max_uses = 3,
                 body_nullifier_hash = ''0x01''\<rparr>, [example_row 2])"
    by (simp add: handleVerify_at_def example_read handleVerify_write_def updateNullifierQuery_eq)
       (simp add: example_row_def example_action_def)
  from success_reports_state [OF w] show ?thesis using w by auto
qed

subsection \<open>The update permission\<close>

lemma col_set_uses_only:
  "col_set Col_uses v r = Some r' \<Longrightarrow>
     nullifier_id r' = nullifier_id r \<and> action_id r' = action_id r
     \<and> nullifier_hash r' = nullifier_hash r \<and> credential_type r' = credential_type r
     \<and> created_at r' = created_at r"
  by (cases v) auto

lemma apply_set_uses_only:
  "list_all (\<lambda>c. c = Col_uses) (map fst cs) \<Longrightarrow> apply_set cs r = Some r' \<Longrightarrow>
     nullifier_id r' = nullifier_id r \<and> action_id r' = action_id r
     \<and> nullifier_hash r' = nullifier_hash r \<and> credential_type r' = credential_type r
     \<and> created_at r' = created_at r"
proof (induction cs r rule: apply_set.induct)
  case (1 r)
  then show ?case by simp
next
  case (2 c v cs r)
  then obtain r1 where r1: "col_set Col_uses v r = Some r1" and rest: "apply_set cs r1 = Some r'"
    by (auto split: option.splits)
  from 2 r1 rest have "nullifier_id r' = nullifier_id r1 \<and> action_id r' = action_id r1
     \<and> nullifier_hash r' = nullifier_hash r1 \<and> credential_type r' = credential_type r1
     \<and> created_at r' = created_at r1" by simp
  with col_set_uses_only [OF r1] show ?case by simp
qed

lemma apply_inc_uses_only:
  "list_all (\<lambda>c. c = Col_uses) (map fst cs) \<Longrightarrow> apply_inc cs r = Some r' \<Longrightarrow>
     nullifier_id r' = nullifier_id r \<and> action_id r' = action_id r
     \<and> nullifier_hash r' = nullifier_hash r \<and> credential_type r' = credential_type r
     \<and> created_at r' = created_at r"
proof (induction cs r rule: apply_inc.induct)
  case (1 r)
  then show ?case by simp
next
  case (2 c k cs r)
  then have c: "c = Col_uses" by simp
  with 2 obtain r1 where r1: "col_set Col_uses (VInt (uses r + k)) r = Some r1"
      and rest: "apply_inc cs r1 = Some r'"
    by (auto split: option.splits)
  from 2 c r1 rest have "nullifier_id r' = nullifier_id r1 \<and> action_id r' = action_id r1
     \<and> nullifier_hash r' = nullifier_hash r1 \<and> credential_type r' = credential_type r1
     \<and> created_at r' = created_at r1" by simp
  with col_set_uses_only [OF r1] show ?case by simp
qed

lemma update_row_uses_only:
  assumes "list_all (\<lambda>c. c = Col_uses) (map fst (set_cols m))"
    and "list_all (\<lambda>c. c = Col_uses) (map fst (inc_cols m))"
    and "update_row m r = Some r'"
  shows "same_identity r r'"
proof (cases "row_matches (where_eq m) r")
  case True
  with assms(3) obtain r1 where a: "apply_set (set_cols m) r = Some r1"
    and b: "apply_inc (inc_cols m) r1 = Some r'"
    by (auto simp: update_row_def split: option.splits)
  from apply_set_uses_only [OF assms(1) a] apply_inc_uses_only [OF assms(2) b]
  show ?thesis by (simp add: same_identity_def)
next
  case False
  with assms(3) show ?thesis by (simp add: update_row_def same_identity_def)
qed

lemma update_rows_uses_only:
  assumes "list_all (\<lambda>c. c = Col_uses) (map fst (set_cols m))"
    and "list_all (\<lambda>c. c = Col_uses) (map fst (inc_cols m))"
  shows "update_rows m rows = Some rows' \<Longrightarrow> list_all2 same_identity rows rows'"
proof (induction rows arbitrary: rows')
  case Nil
  then show ?case by simp
next
  case (Cons r rows)
  then obtain r1 rs1 where r1: "update_row m r = Some r1" and rs1: "update_rows m rows = Some rs1"
    and eq: "rows' = r1 # rs1"
    by (auto split: option.splits)
  from update_row_uses_only [OF assms r1] Cons.IH [OF rs1] eq show ?case by simp
qed

text \<open>
  Claim C9. The update permission of the table gives the role \<open>service\<close> the column
  \<open>uses\<close> and no other. So an update sent under that role that writes another column is
  refused, and every update that is carried out leaves \<open>id\<close>, \<open>action_id\<close>,
  \<open>nullifier_hash\<close>, \<open>credential_type\<close> and \<open>created_at\<close> of every row as they were: the
  table after it has the same rows in the same order, differing in \<open>uses\<close> at most.
\<close>

theorem service_updates_uses_only:
  "map columns (filter (\<lambda>p. role p = ''service'') update_permissions) = [[Col_uses]]
   \<and> (update_nullifier ''service'' m rows = Inr (k, rows') \<longrightarrow>
        list_all2 (\<lambda>r r'. nullifier_id r' = nullifier_id r \<and> action_id r' = action_id r
                      \<and> nullifier_hash r' = nullifier_hash r \<and> credential_type r' = credential_type r
                      \<and> created_at r' = created_at r) rows rows')
   \<and> ((\<exists>c\<in>set (map fst (set_cols m) @ map fst (inc_cols m)). c \<noteq> Col_uses) \<longrightarrow>
        update_nullifier ''service'' m rows = Inl permission_denied)"
proof (intro conjI impI)
  show "map columns (filter (\<lambda>p. role p = ''service'') update_permissions) = [[Col_uses]]"
    by (simp add: update_permissions_def)
next
  assume u: "update_nullifier ''service'' m rows = Inr (k, rows')"
  then have ok: "list_all (\<lambda>c. c = Col_uses) (map fst (set_cols m) @ map fst (inc_cols m))"
    by (auto simp: update_nullifier_def update_permissions_def split: if_splits)
  from u have "update_rows m rows = Some rows'"
    by (auto simp: update_nullifier_def update_permissions_def split: if_splits option.splits)
  from update_rows_uses_only [OF _ _ this] ok
  have "list_all2 same_identity rows rows'" by simp
  then show "list_all2 (\<lambda>r r'. nullifier_id r' = nullifier_id r \<and> action_id r' = action_id r
                      \<and> nullifier_hash r' = nullifier_hash r \<and> credential_type r' = credential_type r
                      \<and> created_at r' = created_at r) rows rows'"
    by (simp add: same_identity_def [abs_def])
next
  assume "\<exists>c\<in>set (map fst (set_cols m) @ map fst (inc_cols m)). c \<noteq> Col_uses"
  then have "\<not> list_all (\<lambda>c. c = Col_uses) (map fst (set_cols m) @ map fst (inc_cols m))"
    by (auto simp: list_all_iff)
  then show "update_nullifier ''service'' m rows = Inl permission_denied"
    by (auto simp: update_nullifier_def update_permissions_def)
qed

theorem service_updates_uses_only_witness:
  "update_nullifier ''service''
     \<lparr>where_eq = [(Col_nullifier_hash, VString ''0x01'')], set_cols = [(Col_uses, VInt 7)], inc_cols = []\<rparr>
     [example_row 1] = Inr (1, [example_row 7])
   \<and> update_nullifier ''service''
     \<lparr>where_eq = [], set_cols = [(Col_nullifier_hash, VString ''0x02'')], inc_cols = []\<rparr>
     [example_row 1] = Inl permission_denied"
proof -
  have a: "update_nullifier ''service''
     \<lparr>where_eq = [(Col_nullifier_hash, VString ''0x01'')], set_cols = [(Col_uses, VInt 7)], inc_cols = []\<rparr>
     [example_row 1] = Inr (1, [example_row 7])"
    by (simp add: update_nullifier_def update_permissions_def update_row_def row_matches_def example_row_def)
  from service_updates_uses_only [of "\<lparr>where_eq = [(Col_nullifier_hash, VString ''0x01'')], set_cols = [(Col_uses, VInt 7)], inc_cols = []\<rparr>"
         "[example_row 1]" 1 "[example_row 7]"]
       service_updates_uses_only [of "\<lparr>where_eq = [], set_cols = [(Col_nullifier_hash, VString ''0x02'')], inc_cols = []\<rparr>"
         "[example_row 1]"]
  show ?thesis using a by simp
qed



subsection \<open>The limit over sequences of requests\<close>

lemma same_hash_same_row:
  assumes "distinct (map nullifier_hash rows)" and "r \<in> set rows" and "n \<in> set rows"
    and "nullifier_hash r = nullifier_hash n"
  shows "r = n"
proof -
  from assms(1) have "inj_on nullifier_hash (set rows)" by (simp add: distinct_map)
  from inj_onD [OF this assms(4,2,3)] show ?thesis .
qed

lemma read_action_lookup:
  assumes "handleVerify_read e rows req = Inr s"
  shows "\<exists>app_id act err staging. lookup_app e app_id act = (err, Some (staging, seen_action s))"
proof -
  from read_Inr [OF assms] obtain p app ext where
    c: "handleVerify_checks e rows req = Inr (p, app, ext)"
    and pr: "handleVerify_proof e (p, app, ext) = Inr s" by blast
  from checks_reached(3) [OF c] obtain q where
    f: "fetchActionForProof e rows (query_toString q) (p_nullifier_hash p) (p_action p)
          = \<lparr>fetch_error = None, fetch_app = Some app\<rparr>" by blast
  obtain err found where l: "lookup_app e (query_toString q) (p_action p) = (err, found)"
    by (cases "lookup_app e (query_toString q) (p_action p)")
  from f l have "map_option (\<lambda>(staging, a). \<lparr>is_staging = staging, app_action = a,
              app_nullifier = find (\<lambda>r. action_id r = action_pk a \<and> nullifier_hash r = p_nullifier_hash p) rows\<rparr>)
             found = Some app"
    by (simp add: fetchActionForProof_def)
  then obtain sa where sa: "found = Some sa"
    and app: "app = (case sa of (staging, a) \<Rightarrow> \<lparr>is_staging = staging, app_action = a,
              app_nullifier = find (\<lambda>r. action_id r = action_pk a \<and> nullifier_hash r = p_nullifier_hash p) rows\<rparr>)"
    by (cases found) auto
  obtain staging a where "sa = (staging, a)" by (cases sa)
  with sa app l have "lookup_app e (query_toString q) (p_action p) = (err, Some (staging, app_action app))"
    by simp
  with proof_Inr(1) [OF pr] show ?thesis by (metis snapshot.select_convs(2))
qed

lemma string_strict_defined_Some:
  "string_strict_defined v = Some s \<Longrightarrow> v = Some (JStr s)"
  by (cases v rule: string_strict_defined.cases) auto

lemma schema_action:
  assumes "schema allowed b = Some p"
  shows "b ''action'' = Some (JStr (p_action p))"
proof -
  from assms obtain a where a: "string_strict_defined (b ''action'') = Some a"
    and p: "p_action p = a"
    by (auto simp: schema_def Option.bind_eq_Some_conv)
  from string_strict_defined_Some [OF a] p show ?thesis by simp
qed

lemma read_requested_action:
  assumes "handleVerify_read e rows req = Inr s"
  shows "requested_action e req = Some (seen_action s)"
proof -
  from read_Inr [OF assms] obtain p app ext where
    c: "handleVerify_checks e rows req = Inr (p, app, ext)"
    and pr: "handleVerify_proof e (p, app, ext) = Inr s" by blast
  from checks_reached(2) [OF c] have act: "body req ''action'' = Some (JStr (p_action p))"
    by (simp add: validateRequestSchema_def schema_action)
  from checks_reached(3) [OF c] obtain q where q: "query_app_id req = Some q" and
    f: "fetchActionForProof e rows (query_toString q) (p_nullifier_hash p) (p_action p)
          = \<lparr>fetch_error = None, fetch_app = Some app\<rparr>" by blast
  obtain err found where l: "lookup_app e (query_toString q) (p_action p) = (err, found)"
    by (cases "lookup_app e (query_toString q) (p_action p)")
  from f l have "map_option (\<lambda>(staging, a). \<lparr>is_staging = staging, app_action = a,
              app_nullifier = find (\<lambda>r. action_id r = action_pk a \<and> nullifier_hash r = p_nullifier_hash p) rows\<rparr>)
             found = Some app"
    by (simp add: fetchActionForProof_def)
  then obtain sa where sa: "found = Some sa"
    and app: "app = (case sa of (staging, a) \<Rightarrow> \<lparr>is_staging = staging, app_action = a,
              app_nullifier = find (\<lambda>r. action_id r = action_pk a \<and> nullifier_hash r = p_nullifier_hash p) rows\<rparr>)"
    by (cases found) auto
  obtain staging a where "sa = (staging, a)" by (cases sa)
  with sa app l have "lookup_app e (query_toString q) (p_action p) = (err, Some (staging, app_action app))"
    by simp
  with q act have "requested_action e req = Some (app_action app)"
    by (simp add: requested_action_def)
  with proof_Inr(1) [OF pr] show ?thesis by simp
qed

lemma write_keeps_hashes_distinct:
  assumes "distinct (map nullifier_hash rows)"
  shows "distinct (map nullifier_hash (snd (handleVerify_write e s rows)))"
proof (cases "seen_nullifier s")
  case None
  with assms show ?thesis by (auto simp: write_insert)
next
  case (Some n)
  have "map nullifier_hash (map (\<lambda>r. if uses r = uses n \<and> nullifier_hash r = nullifier_hash n
                      then r\<lparr>uses := uses r + 1\<rparr> else r) rows) = map nullifier_hash rows"
    by (induction rows) simp_all
  with assms Some show ?thesis by (simp add: write_update del: map_map)
qed

lemma handleVerify_keeps_hashes_distinct:
  assumes "distinct (map nullifier_hash rows)"
  shows "distinct (map nullifier_hash (snd (handleVerify e rows req)))"
  using assms write_keeps_hashes_distinct [OF assms]
  by (simp add: handleVerify_def handleVerify_at_def split: sum.splits)

lemma handleVerify_keeps_limit:
  assumes m: "1 \<le> m"
    and d: "distinct (map nullifier_hash rows)"
    and lim: "within_limit m aid rows"
    and cfg: "\<And>app_id act err staging a.
               lookup_app e app_id act = (err, Some (staging, a)) \<Longrightarrow> action_pk a = aid
               \<Longrightarrow> max_verifications a = m"
  shows "within_limit m aid (snd (handleVerify e rows req))"
proof (cases "handleVerify_read e rows req")
  case (Inl resp)
  with lim show ?thesis by (simp add: handleVerify_def handleVerify_at_def)
next
  case (Inr s)
  from read_action_lookup [OF Inr] cfg
  have max: "action_pk (seen_action s) = aid \<Longrightarrow> max_verifications (seen_action s) = m" by blast
  have hv: "handleVerify e rows req = handleVerify_write e s rows"
    using Inr by (simp add: handleVerify_def handleVerify_at_def)
  show ?thesis
  proof (cases "seen_nullifier s")
    case None
    with lim max m show ?thesis
      by (auto simp: hv write_insert within_limit_def)
  next
    case (Some n)
    from read_snapshot(2) [OF Inr Some]
    have n: "n \<in> set rows" "action_id n = action_pk (seen_action s)" by simp_all
    from read_snapshot(3) [OF Inr] Some
    have below: "uses n < max_verifications (seen_action s)" by (simp add: canVerifyForAction_def)
    have "uses r + 1 \<le> m"
      if "r \<in> set rows" "uses r = uses n" "nullifier_hash r = nullifier_hash n" "action_id r = aid" for r
    proof -
      from same_hash_same_row [OF d that(1) n(1) that(3)] have "r = n" .
      with that(4) n(2) have "action_pk (seen_action s) = aid" by simp
      with max below that(2) show ?thesis by simp
    qed
    with lim show ?thesis
      by (auto simp: hv write_update [OF Some] within_limit_def list_all_iff)
  qed
qed

text \<open>
  Claim C1, as amended. For an action whose \<open>max_verifications\<close> is at least 1: when no
  nullifier of the action has more uses than the limit, no sequence of requests handled
  one after the other drives the uses of a nullifier of the action past the limit.
\<close>

theorem uses_within_limit:
  assumes "1 \<le> m"
    and "distinct (map nullifier_hash rows)"
    and "within_limit m aid rows"
    and "\<forall>(e, req)\<in>set ops. \<forall>app_id act err staging a.
           lookup_app e app_id act = (err, Some (staging, a)) \<longrightarrow> action_pk a = aid
           \<longrightarrow> max_verifications a = m"
  shows "within_limit m aid (handleVerify_all ops rows)"
  using assms(2-)
proof (induction ops arbitrary: rows)
  case Nil
  then show ?case by simp
next
  case (Cons op ops)
  obtain e req where op: "op = (e, req)" by (cases op)
  from Cons.prems(3) op have cfg: "\<And>app_id act err staging a.
      lookup_app e app_id act = (err, Some (staging, a)) \<Longrightarrow> action_pk a = aid
      \<Longrightarrow> max_verifications a = m" by auto
  have "within_limit m aid (snd (handleVerify e rows req))"
    using handleVerify_keeps_limit [OF assms(1) Cons.prems(1,2)] cfg by blast
  moreover have "distinct (map nullifier_hash (snd (handleVerify e rows req)))"
    using handleVerify_keeps_hashes_distinct [OF Cons.prems(1)] .
  moreover from Cons.prems(3) have "\<forall>(e, req)\<in>set ops. \<forall>app_id act err staging a.
           lookup_app e app_id act = (err, Some (staging, a)) \<longrightarrow> action_pk a = aid
           \<longrightarrow> max_verifications a = m" by simp
  ultimately show ?case using Cons.IH op by simp
qed

lemma example_lookup:
  "lookup_app (example_env m) app_id act = (err, Some (staging, a)) \<Longrightarrow> max_verifications a = m"
  by (auto simp: example_env_def example_action_def split: if_splits)

theorem uses_within_limit_witness:
  "within_limit 2 ''action_1'' [example_row 1]
   \<and> handleVerify_all [(example_env 2, example_request), (example_env 2, example_request),
                       (example_env 2, example_request)] [example_row 1] = [example_row 2]
   \<and> within_limit 2 ''action_1'' [example_row 2]"
proof -
  let ?ops = "[(example_env 2, example_request), (example_env 2, example_request),
               (example_env 2, example_request)]"
  have a: "(1::int) \<le> 2" by simp
  have b: "distinct (map nullifier_hash [example_row 1])" by simp
  have c: "within_limit 2 ''action_1'' [example_row 1]"
    by (simp add: within_limit_def example_row_def)
  have d: "\<forall>(e, req)\<in>set ?ops. \<forall>app_id act err staging a.
           lookup_app e app_id act = (err, Some (staging, a)) \<longrightarrow> action_pk a = ''action_1''
           \<longrightarrow> max_verifications a = 2"
    using example_lookup [of 2] by auto
  have sh: "show_int 2 = ''2''"
    by (simp add: show_int_def show_nat.simps digit_char_def)
  have r: "handleVerify_read (example_env 2) [example_row u] example_request
     = (if u < 2 then Inr \<lparr>seen_params = example_params, seen_action = example_action 2,
                           seen_nullifier = Some (example_row u)\<rparr>
        else Inl (errorValidation ''already_verified''
               ''This person has already verified for this action the maximum number of times (2).'' None))" for u
    by (simp add: handleVerify_read_def handleVerify_checks_def handleVerify_proof_def example_defs
        example_params_def validateRequestSchema_def schema_def fetchActionForProof_def
        canVerifyForAction_def sh)
  have h1: "handleVerify (example_env 2) [example_row 1] example_request
     = (json200 \<lparr>success = True, body_uses = 2, body_action = Some ''vote'',
                 body_created_at = ''2023-05-01T00:00:00'', max_uses = 2,
                 body_nullifier_hash = ''0x01''\<rparr>, [example_row 2])"
    by (simp add: handleVerify_def handleVerify_at_def r write_update)
       (simp add: example_row_def example_action_def)
  have h2: "handleVerify (example_env 2) [example_row 2] example_request
     = (errorValidation ''already_verified''
               ''This person has already verified for this action the maximum number of times (2).'' None,
        [example_row 2])"
    by (simp add: handleVerify_def handleVerify_at_def r)
  have e: "handleVerify_all ?ops [example_row 1] = [example_row 2]"
    by (simp add: h1 h2)
  from uses_within_limit [OF a b c d] c e show ?thesis by simp
qed

text \<open>
  Claim C1, as stated, fails for the limit 0: the first verification of a person inserts
  a nullifier with one use, which is more than the limit.
\<close>

theorem limit_zero_exceeded:
  "max_verifications (example_action 0) = 0
   \<and> within_limit 0 ''action_1'' []
   \<and> snd (handleVerify (example_env 0) [] example_request)
       = [\<lparr>nullifier_id = ''nil_1'', action_id = ''action_1'', nullifier_hash = ''0x01'',
           credential_type = ''orb'', created_at = ''2023-06-01T00:00:00'', uses = 1\<rparr>]
   \<and> \<not> within_limit 0 ''action_1'' (snd (handleVerify (example_env 0) [] example_request))"
proof -
  have r: "handleVerify_read (example_env 0) [] example_request
     = Inr \<lparr>seen_params = example_params, seen_action = example_action 0, seen_nullifier = None\<rparr>"
    by (simp add: handleVerify_read_def handleVerify_checks_def handleVerify_proof_def example_defs
        example_params_def validateRequestSchema_def schema_def fetchActionForProof_def
        canVerifyForAction_def)
  have "snd (handleVerify (example_env 0) [] example_request)
       = [\<lparr>nullifier_id = ''nil_1'', action_id = ''action_1'', nullifier_hash = ''0x01'',
           credential_type = ''orb'', created_at = ''2023-06-01T00:00:00'', uses = 1\<rparr>]"
    by (simp add: handleVerify_def handleVerify_at_def r write_insert)
       (simp add: example_env_def example_action_def example_params_def)
  then show ?thesis by (simp add: within_limit_def example_action_def)
qed



subsection \<open>The mutation as a compare-and-set of the stored uses\<close>

lemma stored_uses_None:
  "stored_uses h rows = None \<longleftrightarrow> (\<forall>r\<in>set rows. nullifier_hash r \<noteq> h)"
  by (auto simp: stored_uses_def find_None_iff)

lemma stored_uses_matching:
  assumes "distinct (map nullifier_hash rows)"
  shows "(\<exists>r\<in>set rows. uses r = u \<and> nullifier_hash r = h) \<longleftrightarrow> stored_uses h rows = Some u"
  using assms
proof (induction rows)
  case Nil
  then show ?case by (simp add: stored_uses_def)
next
  case (Cons r rows)
  show ?case
  proof (cases "nullifier_hash r = h")
    case True
    from Cons.prems have "nullifier_hash r \<notin> nullifier_hash ` set rows" by simp
    with True have "\<forall>x\<in>set rows. nullifier_hash x \<noteq> h" by (metis imageI)
    with True show ?thesis by (auto simp: stored_uses_def)
  next
    case False
    with Cons show ?thesis by (auto simp: stored_uses_def)
  qed
qed

lemma find_hash_map:
  assumes "\<And>r. nullifier_hash (f r) = nullifier_hash r"
  shows "find (\<lambda>r. nullifier_hash r = h) (map f rows) = map_option f (find (\<lambda>r. nullifier_hash r = h) rows)"
  by (induction rows) (simp_all add: assms)

lemma find_snoc:
  "find P (xs @ [x]) = (case find P xs of None \<Rightarrow> (if P x then Some x else None) | Some y \<Rightarrow> Some y)"
  by (induction xs) simp_all

lemma stored_uses_incremented:
  "stored_uses h' (map (\<lambda>r. if uses r = u \<and> nullifier_hash r = h
                             then r\<lparr>uses := uses r + 1\<rparr> else r) rows)
     = (if h' = h \<and> stored_uses h rows = Some u then Some (u + 1) else stored_uses h' rows)"
proof -
  let ?f = "\<lambda>r. if uses r = u \<and> nullifier_hash r = h then r\<lparr>uses := uses r + 1\<rparr> else r"
  have f: "find (\<lambda>r. nullifier_hash r = h') (map ?f rows)
             = map_option ?f (find (\<lambda>r. nullifier_hash r = h') rows)"
    by (rule find_hash_map) simp
  show ?thesis
  proof (cases "h' = h")
    case True
    show ?thesis
    proof (cases "find (\<lambda>r. nullifier_hash r = h) rows")
      case None
      with True show ?thesis unfolding stored_uses_def f by simp
    next
      case (Some r)
      from find_SomeD [OF Some] have "nullifier_hash r = h" by simp
      with True Some show ?thesis unfolding stored_uses_def f by simp
    qed
  next
    case False
    show ?thesis
    proof (cases "find (\<lambda>r. nullifier_hash r = h') rows")
      case None
      with False show ?thesis unfolding stored_uses_def f by simp
    next
      case (Some r)
      from find_SomeD [OF Some] have "nullifier_hash r = h'" by simp
      with False Some show ?thesis unfolding stored_uses_def f by simp
    qed
  qed
qed

lemma stored_uses_inserted:
  assumes "\<forall>r\<in>set rows. nullifier_hash r \<noteq> nullifier_hash x"
  shows "stored_uses h' (rows @ [x]) = (if h' = nullifier_hash x then Some (uses x) else stored_uses h' rows)"
proof (cases "find (\<lambda>r. nullifier_hash r = h') rows")
  case None
  then show ?thesis by (simp add: stored_uses_def find_snoc)
next
  case (Some r)
  from find_SomeD [OF Some] assms have "h' \<noteq> nullifier_hash x" by auto
  with Some show ?thesis by (simp add: stored_uses_def find_snoc)
qed

lemma write_update_hit:
  assumes "seen_nullifier s = Some n"
    and "\<exists>r\<in>set rows. uses r = uses n \<and> nullifier_hash r = nullifier_hash n"
  shows "handleVerify_write e s rows =
      (json200 \<lparr>success = True, body_uses = uses n + 1, body_action = action_name (seen_action s),
                      body_created_at = created_at n, max_uses = max_verifications (seen_action s),
                      body_nullifier_hash = nullifier_hash n\<rparr>,
            map (\<lambda>r. if uses r = uses n \<and> nullifier_hash r = nullifier_hash n
                      then r\<lparr>uses := uses r + 1\<rparr> else r) rows)"
proof -
  from assms(2) have "\<not> (\<forall>r\<in>set rows. \<not> (uses r = uses n \<and> nullifier_hash r = nullifier_hash n))"
    by blast
  then show ?thesis unfolding write_update [OF assms(1)] by (rule if_not_P)
qed

lemma write_update_miss:
  assumes "seen_nullifier s = Some n"
    and "\<forall>r\<in>set rows. \<not> (uses r = uses n \<and> nullifier_hash r = nullifier_hash n)"
  shows "handleVerify_write e s rows =
      (errorValidation ''already_verified'' ''This person has already verified for this action.'' None, rows)"
  unfolding write_update [OF assms(1)] using assms(2) by (rule if_P)

lemma write_compare_and_set:
  assumes d: "distinct (map nullifier_hash rows)"
    and wf: "waiting_ok (Waiting s)"
    and w: "handleVerify_write e s rows = (resp, rows')"
  shows "stored_uses (fst (observed s)) rows = snd (observed s) \<Longrightarrow>
           (\<exists>b. resp = json200 b)
           \<and> (\<forall>h'. stored_uses h' rows'
                  = (if h' = fst (observed s) then Some (next_uses (snd (observed s)))
                     else stored_uses h' rows))"
    and "stored_uses (fst (observed s)) rows \<noteq> snd (observed s) \<Longrightarrow>
           (\<forall>b. resp \<noteq> json200 b) \<and> rows' = rows"
proof -
  show "(\<exists>b. resp = json200 b)
           \<and> (\<forall>h'. stored_uses h' rows'
                  = (if h' = fst (observed s) then Some (next_uses (snd (observed s)))
                     else stored_uses h' rows))"
    if eq: "stored_uses (fst (observed s)) rows = snd (observed s)"
  proof (cases "seen_nullifier s")
    case None
    with eq have no: "\<forall>r\<in>set rows. nullifier_hash r \<noteq> p_nullifier_hash (seen_params s)"
      by (simp add: observed_def stored_uses_None)
    let ?x = "\<lparr>nullifier_id = generated_id e, action_id = action_pk (seen_action s),
                      nullifier_hash = p_nullifier_hash (seen_params s),
                      credential_type = p_credential_type (seen_params s),
                      created_at = now e, uses = 1\<rparr>"
    from no w None have r: "rows' = rows @ [?x]" and "\<exists>b. resp = json200 b"
      by (auto simp: write_insert)
    moreover from no have "stored_uses h' (rows @ [?x])
        = (if h' = nullifier_hash ?x then Some (uses ?x) else stored_uses h' rows)" for h'
      by (intro stored_uses_inserted) simp
    ultimately show ?thesis using None by (simp add: observed_def next_uses_def)
  next
    case (Some n)
    with wf have hn: "nullifier_hash n = p_nullifier_hash (seen_params s)"
      by (simp add: waiting_ok_def)
    from eq Some hn have st: "stored_uses (nullifier_hash n) rows = Some (uses n)"
      by (simp add: observed_def)
    with stored_uses_matching [OF d, of "uses n" "nullifier_hash n"]
    have ex: "\<exists>r\<in>set rows. uses r = uses n \<and> nullifier_hash r = nullifier_hash n" by simp
    from w write_update_hit [OF Some ex, of e] have "\<exists>b. resp = json200 b"
      and "rows' = map (\<lambda>r. if uses r = uses n \<and> nullifier_hash r = nullifier_hash n
                      then r\<lparr>uses := uses r + 1\<rparr> else r) rows"
      by auto
    then show ?thesis using Some hn st
      by (simp add: stored_uses_incremented observed_def next_uses_def)
  qed
  show "(\<forall>b. resp \<noteq> json200 b) \<and> rows' = rows"
    if ne: "stored_uses (fst (observed s)) rows \<noteq> snd (observed s)"
  proof (cases "seen_nullifier s")
    case None
    with ne have "\<exists>r\<in>set rows. nullifier_hash r = p_nullifier_hash (seen_params s)"
      by (simp add: observed_def stored_uses_None)
    with w None show ?thesis by (auto simp: write_insert)
  next
    case (Some n)
    with wf have hn: "nullifier_hash n = p_nullifier_hash (seen_params s)"
      by (simp add: waiting_ok_def)
    from ne Some hn have "stored_uses (nullifier_hash n) rows \<noteq> Some (uses n)"
      by (simp add: observed_def)
    with stored_uses_matching [OF d, of "uses n" "nullifier_hash n"]
    have "\<forall>r\<in>set rows. \<not> (uses r = uses n \<and> nullifier_hash r = nullifier_hash n)" by blast
    from w write_update_miss [OF Some this, of e] show ?thesis by auto
  qed
qed



subsection \<open>Interleavings\<close>

lemma exclusive_iff:
  "exclusive st \<longleftrightarrow>
     (\<forall>i<length st. \<forall>j<length st.
        i \<noteq> j \<longrightarrow> succeeded (st ! i) \<noteq> None \<longrightarrow> succeeded (st ! i) \<noteq> succeeded (st ! j))"
  unfolding exclusive_def list_all_iff
  by (simp only: set_upt atLeast0LessThan lessThan_iff Ball_def)

lemma inv_exclusive_iff:
  "inv_exclusive c \<longleftrightarrow>
     distinct (map nullifier_hash (fst c))
     \<and> (\<forall>p\<in>set (snd c). waiting_ok p)
     \<and> (\<forall>p\<in>set (snd c). \<forall>k. succeeded p = Some k \<longrightarrow> passed (fst c) k)
     \<and> exclusive (snd c)"
proof -
  have "(case succeeded p of None \<Rightarrow> True | Some k \<Rightarrow> passed (fst c) k)
        \<longleftrightarrow> (\<forall>k. succeeded p = Some k \<longrightarrow> passed (fst c) k)" for p
    by (cases "succeeded p") simp_all
  then show ?thesis by (simp add: inv_exclusive_def)
qed

lemma step_cases:
  obtains (same) "step reqs i (rows, st) = (rows, st)"
  | (answered) resp where "i < length st" and "st ! i = Idle"
      and "step reqs i (rows, st) = (rows, st[i := Done None resp])"
  | (fetched) e req s where "i < length st" and "i < length reqs" and "st ! i = Idle"
      and "reqs ! i = (e, req)" and "handleVerify_read e rows req = Inr s"
      and "step reqs i (rows, st) = (rows, st[i := Waiting s])"
  | (written) e s resp rows' where "i < length st" and "st ! i = Waiting s"
      and "handleVerify_write e s rows = (resp, rows')"
      and "step reqs i (rows, st) = (rows', st[i := Done (Some s) resp])"
proof (cases "i < length reqs \<and> i < length st")
  case False
  then have "step reqs i (rows, st) = (rows, st)" by (auto simp: step_def)
  then show ?thesis by (rule same)
next
  case True
  obtain e req where er: "reqs ! i = (e, req)" by (cases "reqs ! i")
  show ?thesis
  proof (cases "st ! i")
    case Idle
    show ?thesis
    proof (cases "handleVerify_read e rows req")
      case (Inl resp)
      with True er Idle have "step reqs i (rows, st) = (rows, st[i := Done None resp])"
        by (simp add: step_def)
      with True Idle show ?thesis by (intro answered) simp_all
    next
      case (Inr s)
      with True er Idle have "step reqs i (rows, st) = (rows, st[i := Waiting s])"
        by (simp add: step_def)
      with True Idle er Inr show ?thesis by (intro fetched) simp_all
    qed
  next
    case (Waiting s)
    obtain resp rows' where w: "handleVerify_write e s rows = (resp, rows')"
      by (cases "handleVerify_write e s rows")
    with True er Waiting have "step reqs i (rows, st) = (rows', st[i := Done (Some s) resp])"
      by (simp add: step_def)
    with True Waiting w show ?thesis by (intro written) simp_all
  next
    case (Done so resp)
    with True er have "step reqs i (rows, st) = (rows, st)" by (simp add: step_def)
    then show ?thesis by (rule same)
  qed
qed

lemma all_update:
  assumes "\<forall>p\<in>set st. Q p" and "Q x"
  shows "\<forall>p\<in>set (st[i := x]). Q p"
  using assms set_update_subset_insert [of st i x] by blast

lemma exclusive_update_None:
  assumes "exclusive st" and "succeeded x = None"
  shows "exclusive (st[i := x])"
  unfolding exclusive_iff
proof (intro allI impI)
  fix a b
  assume a: "a < length (st[i := x])" and b: "b < length (st[i := x])" and ab: "a \<noteq> b"
    and s: "succeeded (st[i := x] ! a) \<noteq> None"
  from s assms(2) a have ai: "a \<noteq> i" by auto
  with s have sa: "succeeded (st ! a) \<noteq> None" by simp
  show "succeeded (st[i := x] ! a) \<noteq> succeeded (st[i := x] ! b)"
  proof (cases "b = i")
    case True
    with b assms(2) sa ai show ?thesis by simp
  next
    case False
    with assms(1) a b ab sa ai show ?thesis by (simp add: exclusive_iff)
  qed
qed

lemma exclusive_update_Some:
  assumes "exclusive st"
    and "\<forall>j<length st. j \<noteq> i \<longrightarrow> succeeded (st ! j) \<noteq> succeeded x"
  shows "exclusive (st[i := x])"
  unfolding exclusive_iff
proof (intro allI impI)
  fix a b
  assume a: "a < length (st[i := x])" and b: "b < length (st[i := x])" and ab: "a \<noteq> b"
    and s: "succeeded (st[i := x] ! a) \<noteq> None"
  show "succeeded (st[i := x] ! a) \<noteq> succeeded (st[i := x] ! b)"
  proof (cases "a = i")
    case True
    with ab have "b \<noteq> i" by simp
    with True a b assms(2) show ?thesis by (metis length_list_update nth_list_update)
  next
    case ai: False
    show ?thesis
    proof (cases "b = i")
      case True
      with ai a b assms(2) show ?thesis by (metis length_list_update nth_list_update)
    next
      case False
      with assms(1) ai a b ab s show ?thesis by (simp add: exclusive_iff)
    qed
  qed
qed

lemma successes_update:
  assumes "i < length st" and "succeeded (st ! i) = None"
  shows "successes h (st[i := x])
           = successes h st + (if map_option fst (succeeded x) = Some h then 1 else 0)"
proof -
  have a: "st[i := x] = take i st @ x # drop (Suc i) st"
    using assms(1) by (rule upd_conv_take_nth_drop)
  have b: "st = take i st @ st ! i # drop (Suc i) st"
    using assms(1) by (rule id_take_nth_drop)
  have "successes h (take i st @ x # drop (Suc i) st)
      = successes h (take i st @ st ! i # drop (Suc i) st)
        + (if map_option fst (succeeded x) = Some h then 1 else 0)"
    using assms(2) by (simp add: successes_def)
  with a b show ?thesis by simp
qed

lemma succeeded_Done:
  "succeeded (Done (Some s) resp) = (if \<exists>b. resp = json200 b then Some (observed s) else None)"
  by (cases resp) simp_all

lemma not_passed_when_stored:
  "stored_uses h rows = obs \<Longrightarrow> \<not> passed rows (h, obs)"
  by (cases obs) (simp_all add: passed_def)

lemma passed_after_write:
  assumes d: "distinct (map nullifier_hash rows)"
    and wf: "waiting_ok (Waiting s)"
    and w: "handleVerify_write e s rows = (resp, rows')"
    and p: "passed rows k"
  shows "passed rows' k"
proof (cases "stored_uses (fst (observed s)) rows = snd (observed s)")
  case False
  from write_compare_and_set(2) [OF d wf w False] p show ?thesis by simp
next
  case True
  from write_compare_and_set(1) [OF d wf w True]
  have st: "stored_uses h' rows' = (if h' = fst (observed s) then Some (next_uses (snd (observed s)))
                     else stored_uses h' rows)" for h' by blast
  show ?thesis
  proof (cases "fst k = fst (observed s)")
    case False
    with p st [of "fst k"] show ?thesis by (simp add: passed_def)
  next
    case same: True
    from p same True obtain v where v: "snd (observed s) = Some v"
      by (cases "snd (observed s)") (auto simp: passed_def)
    with p same True st [of "fst k"] show ?thesis
      by (cases "snd k") (auto simp: passed_def next_uses_def)
  qed
qed

lemma passed_own_observation:
  assumes d: "distinct (map nullifier_hash rows)"
    and wf: "waiting_ok (Waiting s)"
    and w: "handleVerify_write e s rows = (resp, rows')"
    and hit: "stored_uses (fst (observed s)) rows = snd (observed s)"
  shows "passed rows' (observed s)"
proof -
  from write_compare_and_set(1) [OF d wf w hit]
  have "stored_uses (fst (observed s)) rows' = Some (next_uses (snd (observed s)))" by simp
  then show ?thesis
    by (cases "snd (observed s)") (simp_all add: passed_def next_uses_def)
qed



lemma inv_exclusive_step:
  assumes inv: "inv_exclusive c"
  shows "inv_exclusive (step reqs i c)"
proof -
  obtain rows st where c: "c = (rows, st)" by (cases c)
  from inv c have d: "distinct (map nullifier_hash rows)"
    and wok: "\<forall>p\<in>set st. waiting_ok p"
    and pas: "\<forall>p\<in>set st. \<forall>k. succeeded p = Some k \<longrightarrow> passed rows k"
    and exc: "exclusive st"
    by (simp_all add: inv_exclusive_iff)
  show ?thesis
  proof (cases rule: step_cases [of reqs i rows st])
    case same
    with inv c show ?thesis by simp
  next
    case (answered resp)
    have "\<forall>p\<in>set (st[i := Done None resp]). waiting_ok p"
      using wok by (rule all_update) (simp add: waiting_ok_def)
    moreover have "\<forall>p\<in>set (st[i := Done None resp]). \<forall>k. succeeded p = Some k \<longrightarrow> passed rows k"
      using pas by (rule all_update) simp
    moreover have "exclusive (st[i := Done None resp])"
      using exc by (rule exclusive_update_None) simp
    ultimately show ?thesis using d c answered(3) by (simp add: inv_exclusive_iff)
  next
    case (fetched e req s)
    have "waiting_ok (Waiting s)"
      using read_snapshot(2) [OF fetched(5)]
      by (cases "seen_nullifier s") (simp_all add: waiting_ok_def)
    with wok have "\<forall>p\<in>set (st[i := Waiting s]). waiting_ok p" by (rule all_update)
    moreover have "\<forall>p\<in>set (st[i := Waiting s]). \<forall>k. succeeded p = Some k \<longrightarrow> passed rows k"
      using pas by (rule all_update) simp
    moreover have "exclusive (st[i := Waiting s])"
      using exc by (rule exclusive_update_None) simp
    ultimately show ?thesis using d c fetched(6) by (simp add: inv_exclusive_iff)
  next
    case (written e s resp rows')
    from written(1,2) have mem: "Waiting s \<in> set st" by (metis nth_mem)
    with wok have wf: "waiting_ok (Waiting s)" by blast
    note cas = write_compare_and_set [OF d wf written(3)]
    have d': "distinct (map nullifier_hash rows')"
      using write_keeps_hashes_distinct [OF d, of e s] written(3) by simp
    have old: "\<forall>p\<in>set st. \<forall>k. succeeded p = Some k \<longrightarrow> passed rows' k"
      using pas passed_after_write [OF d wf written(3)] by blast
    have new: "\<forall>k. succeeded (Done (Some s) resp) = Some k \<longrightarrow> passed rows' k"
    proof (intro allI impI)
      fix k assume k: "succeeded (Done (Some s) resp) = Some k"
      then have j: "\<exists>b. resp = json200 b" and ko: "k = observed s"
        by (auto simp: succeeded_Done split: if_splits)
      from j cas(2) have "stored_uses (fst (observed s)) rows = snd (observed s)" by blast
      from passed_own_observation [OF d wf written(3) this] ko show "passed rows' k" by simp
    qed
    have "\<forall>p\<in>set (st[i := Done (Some s) resp]). waiting_ok p"
      using wok by (rule all_update) (simp add: waiting_ok_def)
    moreover have "\<forall>p\<in>set (st[i := Done (Some s) resp]). \<forall>k. succeeded p = Some k \<longrightarrow> passed rows' k"
      using old new by (rule all_update)
    moreover have "exclusive (st[i := Done (Some s) resp])"
    proof (cases "\<exists>b. resp = json200 b")
      case False
      then have "succeeded (Done (Some s) resp) = None" by (simp add: succeeded_Done)
      with exc show ?thesis by (rule exclusive_update_None)
    next
      case True
      with cas(2) have hit: "stored_uses (fst (observed s)) rows = snd (observed s)" by blast
      have "\<forall>j<length st. j \<noteq> i \<longrightarrow> succeeded (st ! j) \<noteq> succeeded (Done (Some s) resp)"
      proof (intro allI impI)
        fix j assume j: "j < length st" "j \<noteq> i"
        show "succeeded (st ! j) \<noteq> succeeded (Done (Some s) resp)"
        proof
          assume "succeeded (st ! j) = succeeded (Done (Some s) resp)"
          with True have "succeeded (st ! j) = Some (observed s)" by (simp add: succeeded_Done)
          with pas j(1) have "passed rows (observed s)" by (metis nth_mem)
          with not_passed_when_stored [OF hit] show False by simp
        qed
      qed
      with exc show ?thesis by (rule exclusive_update_Some)
    qed
    ultimately show ?thesis using d' c written(4) by (simp add: inv_exclusive_iff)
  qed
qed

lemma inv_counted_step:
  assumes m: "1 \<le> m"
    and cfg: "\<forall>(e, req)\<in>set reqs. body req ''nullifier_hash'' = Some (JStr h) \<longrightarrow>
               (\<forall>a. requested_action e req = Some a \<longrightarrow> max_verifications a = m)"
    and inv: "inv_exclusive c"
    and cnt: "inv_counted h m start c"
  shows "inv_counted h m start (step reqs i c)"
proof -
  obtain rows st where c: "c = (rows, st)" by (cases c)
  from inv c have d: "distinct (map nullifier_hash rows)"
    and wok: "\<forall>p\<in>set st. waiting_ok p"
    by (simp_all add: inv_exclusive_iff)
  from cnt c have bel: "\<forall>p\<in>set st. below_limit h m p"
    and sum: "int (successes h st) + start = counted h rows"
    and le: "counted h rows \<le> m"
    by (simp_all add: inv_counted_def)
  show ?thesis
  proof (cases rule: step_cases [of reqs i rows st])
    case same
    with cnt c show ?thesis by simp
  next
    case (answered resp)
    have "\<forall>p\<in>set (st[i := Done None resp]). below_limit h m p"
      using bel by (rule all_update) (simp add: below_limit_def)
    moreover have "successes h (st[i := Done None resp]) = successes h st"
      using answered(1,2) by (simp add: successes_update)
    ultimately show ?thesis using sum le c answered(3) by (simp add: inv_counted_def)
  next
    case (fetched e req s)
    have "below_limit h m (Waiting s)"
    proof (cases "p_nullifier_hash (seen_params s) = h")
      case False
      then show ?thesis by (simp add: below_limit_def)
    next
      case True
      from fetched(2,4) have "(e, req) \<in> set reqs" by (metis nth_mem)
      moreover from read_snapshot(1) [OF fetched(5)] True
      have "body req ''nullifier_hash'' = Some (JStr h)" by simp
      ultimately have "\<forall>a. requested_action e req = Some a \<longrightarrow> max_verifications a = m"
        using cfg by blast
      with read_requested_action [OF fetched(5)] have "max_verifications (seen_action s) = m" by blast
      with read_snapshot(3) [OF fetched(5)] show ?thesis
        by (cases "seen_nullifier s") (simp_all add: below_limit_def canVerifyForAction_def)
    qed
    with bel have "\<forall>p\<in>set (st[i := Waiting s]). below_limit h m p" by (rule all_update)
    moreover have "successes h (st[i := Waiting s]) = successes h st"
      using fetched(1,3) by (simp add: successes_update)
    ultimately show ?thesis using sum le c fetched(6) by (simp add: inv_counted_def)
  next
    case (written e s resp rows')
    from written(1,2) have mem: "Waiting s \<in> set st" by (metis nth_mem)
    with wok have wf: "waiting_ok (Waiting s)" by blast
    from mem bel have bl: "below_limit h m (Waiting s)" by blast
    note cas = write_compare_and_set [OF d wf written(3)]
    have bel': "\<forall>p\<in>set (st[i := Done (Some s) resp]). below_limit h m p"
      using bel by (rule all_update) (simp add: below_limit_def)
    have upd: "successes h (st[i := Done (Some s) resp])
        = successes h st + (if map_option fst (succeeded (Done (Some s) resp)) = Some h then 1 else 0)"
      using written(1,2) by (simp add: successes_update)
    have "int (successes h (st[i := Done (Some s) resp])) + start = counted h rows'
          \<and> counted h rows' \<le> m"
    proof (cases "stored_uses (fst (observed s)) rows = snd (observed s)")
      case False
      from cas(2) [OF False] have "succeeded (Done (Some s) resp) = None" and "rows' = rows"
        by (simp_all add: succeeded_Done)
      with upd sum le show ?thesis by simp
    next
      case True
      from cas(1) [OF True] have j: "\<exists>b. resp = json200 b"
        and st': "stored_uses h rows' = (if h = fst (observed s) then Some (next_uses (snd (observed s)))
                     else stored_uses h rows)" by blast+
      from j have su: "succeeded (Done (Some s) resp) = Some (observed s)" by (simp add: succeeded_Done)
      show ?thesis
      proof (cases "h = fst (observed s)")
        case False
        with st' su upd sum le show ?thesis by (auto simp: counted_def)
      next
        case same: True
        from same su upd have s1: "successes h (st[i := Done (Some s) resp]) = successes h st + 1" by simp
        from same st' have c': "counted h rows' = next_uses (snd (observed s))" by (simp add: counted_def)
        from same True have c0: "counted h rows = (case snd (observed s) of None \<Rightarrow> 0 | Some u \<Rightarrow> u)"
          by (simp add: counted_def)
        have "next_uses (snd (observed s)) = counted h rows + 1"
          using c0 by (cases "snd (observed s)") (simp_all add: next_uses_def)
        moreover have "next_uses (snd (observed s)) \<le> m"
        proof (cases "seen_nullifier s")
          case None
          with m show ?thesis by (simp add: observed_def next_uses_def)
        next
          case (Some n)
          with bl same have "uses n < m" by (simp add: below_limit_def observed_def)
          with Some show ?thesis by (simp add: observed_def next_uses_def)
        qed
        ultimately show ?thesis using s1 c' sum by simp
      qed
    qed
    with bel' show ?thesis using c written(4) by (simp add: inv_counted_def)
  qed
qed

lemma invariants_run:
  assumes m: "1 \<le> m"
    and cfg: "\<forall>(e, req)\<in>set reqs. body req ''nullifier_hash'' = Some (JStr h) \<longrightarrow>
               (\<forall>a. requested_action e req = Some a \<longrightarrow> max_verifications a = m)"
  shows "inv_exclusive c \<Longrightarrow> inv_counted h m start c \<Longrightarrow>
         inv_counted h m start (fold (step reqs) sched c)"
proof (induction sched arbitrary: c)
  case Nil
  then show ?case by simp
next
  case (Cons i sched)
  from inv_exclusive_step [OF Cons.prems(1)] inv_counted_step [OF m cfg Cons.prems]
  show ?case using Cons.IH by simp
qed

lemma inv_exclusive_run:
  "inv_exclusive c \<Longrightarrow> inv_exclusive (fold (step reqs) sched c)"
  by (induction sched arbitrary: c) (simp_all add: inv_exclusive_step)

lemma inv_exclusive_start:
  assumes "distinct (map nullifier_hash rows)"
  shows "inv_exclusive (rows, replicate n Idle)"
  using assms by (simp add: inv_exclusive_iff waiting_ok_def exclusive_iff)

lemma inv_counted_start:
  assumes "counted h rows \<le> m"
  shows "inv_counted h m (counted h rows) (rows, replicate n Idle)"
  using assms by (simp add: inv_counted_def below_limit_def successes_def)



text \<open>
  Claim C2, as amended. The table starts with no two rows of the same hash (the
  uniqueness constraint). Whatever the requests and whatever the order in which their
  fetches and mutations are interleaved, no two different attempts succeed with the same
  observation: of the attempts that read the same uses of the same nullifier at most
  one succeeds, and of those that read no nullifier for a hash at most one succeeds.
  And when every request for the hash \<open>h\<close> asks for an action of limit \<open>m\<close>, with \<open>m\<close> at
  least 1, and the nullifier starts within the limit, every success adds one use and
  the uses stay within the limit: the successful verifications of the run and the
  uses at the start together never exceed \<open>m\<close>.
\<close>

theorem no_double_verification:
  assumes "distinct (map nullifier_hash rows)"
  shows "exclusive (snd (run_schedule reqs sched rows))
       \<and> (1 \<le> m \<and> counted h rows \<le> m
          \<and> (\<forall>(e, req)\<in>set reqs. body req ''nullifier_hash'' = Some (JStr h) \<longrightarrow>
               (\<forall>a. requested_action e req = Some a \<longrightarrow> max_verifications a = m))
          \<longrightarrow> int (successes h (snd (run_schedule reqs sched rows))) + counted h rows
                = counted h (fst (run_schedule reqs sched rows))
              \<and> counted h (fst (run_schedule reqs sched rows)) \<le> m
              \<and> (0 \<le> counted h rows \<longrightarrow> int (successes h (snd (run_schedule reqs sched rows))) \<le> m))"
proof (intro conjI impI)
  let ?c = "(rows, replicate (length reqs) Idle)"
  have e: "inv_exclusive ?c" using assms by (rule inv_exclusive_start)
  from inv_exclusive_run [OF e, of reqs sched]
  show "exclusive (snd (run_schedule reqs sched rows))"
    by (simp add: run_schedule_def inv_exclusive_iff)
  assume a: "1 \<le> m \<and> counted h rows \<le> m
          \<and> (\<forall>(e, req)\<in>set reqs. body req ''nullifier_hash'' = Some (JStr h) \<longrightarrow>
               (\<forall>a. requested_action e req = Some a \<longrightarrow> max_verifications a = m))"
  then have m: "1 \<le> m" and le: "counted h rows \<le> m"
    and cfg: "\<forall>(e, req)\<in>set reqs. body req ''nullifier_hash'' = Some (JStr h) \<longrightarrow>
               (\<forall>a. requested_action e req = Some a \<longrightarrow> max_verifications a = m)"
    by blast+
  have "inv_counted h m (counted h rows) ?c" using le by (rule inv_counted_start)
  from invariants_run [OF m cfg e this, of sched]
  have r: "int (successes h (snd (run_schedule reqs sched rows))) + counted h rows
             = counted h (fst (run_schedule reqs sched rows))"
    and l: "counted h (fst (run_schedule reqs sched rows)) \<le> m"
    by (simp_all add: run_schedule_def inv_counted_def)
  from r show "int (successes h (snd (run_schedule reqs sched rows))) + counted h rows
             = counted h (fst (run_schedule reqs sched rows))" .
  from l show "counted h (fst (run_schedule reqs sched rows)) \<le> m" .
  assume "0 \<le> counted h rows"
  with r l show "int (successes h (snd (run_schedule reqs sched rows))) \<le> m" by simp
qed

lemma example_run:
  "run_schedule [(example_env_two, example_request), (example_env_two, example_request)] [0, 1, 1, 0]
     [example_row 1]
   = ([example_row 2],
      [Done (Some \<lparr>seen_params = example_params, seen_action = example_action 2,
                   seen_nullifier = Some (example_row 1)\<rparr>)
         (errorValidation ''already_verified''
            ''This person has already verified for this action.'' None),
       Done (Some \<lparr>seen_params = example_params, seen_action = example_action 2,
                   seen_nullifier = Some (example_row 1)\<rparr>)
         (json200 \<lparr>success = True, body_uses = 2, body_action = Some ''vote'',
                    body_created_at = ''2023-05-01T00:00:00'', max_uses = 2,
                    body_nullifier_hash = ''0x01''\<rparr>)])"
  by code_simp

theorem no_double_verification_witness:
  "exclusive (snd (run_schedule [(example_env_two, example_request), (example_env_two, example_request)]
                     [0, 1, 1, 0] [example_row 1]))
   \<and> requested_action example_env_two example_request = Some (example_action 2)
   \<and> max_verifications example_other_action = 5
   \<and> successes ''0x01'' (snd (run_schedule [(example_env_two, example_request), (example_env_two, example_request)]
                     [0, 1, 1, 0] [example_row 1])) = 1
   \<and> counted ''0x01'' [example_row 1] = 1
   \<and> counted ''0x01'' (fst (run_schedule [(example_env_two, example_request), (example_env_two, example_request)]
                     [0, 1, 1, 0] [example_row 1])) = 2"
proof -
  let ?reqs = "[(example_env_two, example_request), (example_env_two, example_request)]"
  have d: "distinct (map nullifier_hash [example_row 1])" by simp
  have c: "counted ''0x01'' [example_row 1] = 1"
    by (simp add: counted_def stored_uses_def example_row_def)
  have c2: "counted ''0x01'' [example_row 2] = 2"
    by (simp add: counted_def stored_uses_def example_row_def)
  have ra: "requested_action example_env_two example_request = Some (example_action 2)"
    by (simp add: requested_action_def example_env_two_def example_env_def example_request_def
        example_body_def)
  have o: "max_verifications example_other_action = 5" by (simp add: example_other_action_def)
  have cfg: "\<forall>(e, req)\<in>set ?reqs. body req ''nullifier_hash'' = Some (JStr ''0x01'') \<longrightarrow>
               (\<forall>a. requested_action e req = Some a \<longrightarrow> max_verifications a = 2)"
    by (simp add: ra example_action_def)
  note t = no_double_verification [OF d, of ?reqs "[0, 1, 1, 0]" 2 "''0x01''", unfolded example_run]
  from t c c2 cfg ra o show ?thesis unfolding example_run by simp
qed

text \<open>
  Claim C2, as stated, fails for the allowed use count 0: a single request, on a table
  without the nullifier, succeeds once.
\<close>

theorem one_success_with_limit_zero:
  "max_verifications (example_action 0) = 0
   \<and> run_schedule [(example_env 0, example_request)] [0, 0] []
     = ([\<lparr>nullifier_id = ''nil_1'', action_id = ''action_1'', nullifier_hash = ''0x01'',
           credential_type = ''orb'', created_at = ''2023-06-01T00:00:00'', uses = 1\<rparr>],
        [Done (Some \<lparr>seen_params = example_params, seen_action = example_action 0,
                     seen_nullifier = None\<rparr>)
           (json200 \<lparr>success = True, body_uses = 1, body_action = Some ''vote'',
                      body_created_at = ''2023-06-01T00:00:00'', max_uses = 0,
                      body_nullifier_hash = ''0x01''\<rparr>)])
   \<and> successes ''0x01'' (snd (run_schedule [(example_env 0, example_request)] [0, 0] [])) = 1"
  by code_simp


end
